theory Spec2Isabelle
  imports Complex_Main "HOL-Library.Multiset"
begin

section \<open>The air-wire builder of LibrePCB (airwiresbuilder.cpp)\<close>

text \<open>
  The builder holds \<^verbatim>\<open>mPoints\<close>, a vector of \<^verbatim>\<open>delaunay::Vector2<qreal>\<close>, and
  \<^verbatim>\<open>mEdges\<close>, a vector of \<^verbatim>\<open>delaunay::Edge<qreal>\<close>. A vector carries its coordinates,
  the id given by \<^verbatim>\<open>addPoint\<close> and a tag; an edge carries copies of its two end points
  and a weight. Coordinates and weights are \<^verbatim>\<open>qreal\<close>s, that is doubles. The coordinates
  come from \<^verbatim>\<open>toNm()\<close>, a 64-bit whole number of nanometres, so the double holds a whole
  number: it is kept here as the \<open>int\<close> it holds, rounded as the conversion rounds it (the
  fields are called \<open>vx\<close>, \<open>vy\<close>, \<open>vid\<close>, \<open>vtag\<close> since \<open>x\<close>, \<open>y\<close> and \<open>id\<close> are taken). Ids and
  tags are C++ \<^verbatim>\<open>int\<close>s that only ever hold positions of \<^verbatim>\<open>mPoints\<close>; they are natural
  numbers here. The weight of an edge holds \<open>-1\<close> or what \<^verbatim>\<open>dist2\<close> returns for two such
  points, again a whole number kept as an \<open>int\<close>. The general statements below assume
  nothing of \<^verbatim>\<open>dist2\<close> but that it is not negative.
\<close>

record vec =
  vx :: int
  vy :: int
  vid :: nat
  vtag :: nat

record edge =
  p1 :: vec
  p2 :: vec
  weight :: int

record builder =
  mPoints :: "vec list"
  mEdges :: "edge list"

type_synonym point = "int \<times> int"
type_synonym airwire = "point \<times> point"

text \<open>
  What the file calls but does not define: \<^verbatim>\<open>std::sort\<close> on edges and on points,
  \<^verbatim>\<open>Vector2::dist2\<close> and the Delaunay triangulation. They are parameters of the model.
\<close>

record env =
  sortEdges :: "edge list \<Rightarrow> edge list"
  sortPoints :: "vec list \<Rightarrow> vec list"
  dist2 :: "vec \<Rightarrow> vec \<Rightarrow> int"
  triangulate :: "vec list \<Rightarrow> edge list"

text \<open>
  The contract of \<^verbatim>\<open>std::sort(first, last, comp)\<close>: the result is a rearrangement of the
  input in which no later element is \<open>cmp\<close>-before an earlier one. Nothing is promised
  about elements that compare equivalent.
\<close>

definition std_sort :: "('a \<Rightarrow> 'a \<Rightarrow> bool) \<Rightarrow> ('a list \<Rightarrow> 'a list) \<Rightarrow> bool" where
  "std_sort cmp srt \<longleftrightarrow>
     (\<forall>xs. mset (srt xs) = mset xs \<and> sorted_wrt (\<lambda>a b. \<not> cmp b a) (srt xs))"

definition env_ok :: "env \<Rightarrow> bool" where
  "env_ok L \<longleftrightarrow>
     std_sort (\<lambda>a b. weight a > weight b) (sortEdges L) \<and>
     std_sort (\<lambda>a b. vx a < vx b) (sortPoints L) \<and>
     (\<forall>a b. 0 \<le> dist2 L a b)"

subsection \<open>Whole numbers held in a qreal\<close>

text \<open>
  A \<^verbatim>\<open>qreal\<close> is an IEEE-754 double: 53 significant bits. \<open>bits n\<close> is the number of binary
  digits of \<open>n\<close>. \<open>toQreal n\<close> is the whole number the double nearest to \<open>n\<close> holds: \<open>n\<close> is
  cut to its 53 leading bits and rounded to the nearest such number, to the even one when
  it lies half way (the exponent range of a double is far beyond 64-bit numbers and their
  squares, and is left out). \<open>isDouble n\<close>: a double holds \<open>n\<close> as it is.
\<close>

function bits :: "int \<Rightarrow> nat" where
  "bits n = (if n \<le> 0 then 0 else Suc (bits (n div 2)))"
  by pat_completeness auto
termination
  by (relation "measure nat") auto

declare bits.simps [simp del]

definition toQreal :: "int \<Rightarrow> int" where
  "toQreal n =
     (let a = \<bar>n\<bar>;
          q = 2 ^ (bits a - 53);
          lo = a div q;
          r = a mod q;
          m = (if 2 * r < q then lo
               else if q < 2 * r then lo + 1
               else if even lo then lo else lo + 1)
      in sgn n * (m * q))"


subsection \<open>addPoint and addEdge\<close>

text \<open>
  \<^verbatim>\<open>mPoints.emplace_back(p.getX().toNm(), p.getY().toNm(), id)\<close> stores the two 64-bit
  numbers in \<^verbatim>\<open>qreal\<close>s.
\<close>

definition empty_builder :: builder where
  "empty_builder = \<lparr>mPoints = [], mEdges = []\<rparr>"

definition addPoint :: "builder \<Rightarrow> point \<Rightarrow> nat \<times> builder" where
  "addPoint b p =
     (let i = length (mPoints b)
      in (i, b\<lparr>mPoints := mPoints b @
               [\<lparr>vx = toQreal (fst p), vy = toQreal (snd p), vid = i, vtag = 0\<rparr>]\<rparr>))"

text \<open>\<^verbatim>\<open>mPoints[p]\<close> with an id that was never handed out is undefined behaviour: \<open>None\<close>.\<close>

definition addEdge :: "builder \<Rightarrow> nat \<Rightarrow> nat \<Rightarrow> builder option" where
  "addEdge b i j =
     (if i < length (mPoints b) \<and> j < length (mPoints b)
      then Some (b\<lparr>mEdges := mEdges b @ [\<lparr>p1 = mPoints b ! i, p2 = mPoints b ! j, weight = - 1\<rparr>]\<rparr>)
      else None)"

subsection \<open>arePointsColinear\<close>

text \<open>
  The test works on \<^verbatim>\<open>QPointF\<close>s, that is on \<^verbatim>\<open>qreal\<close>s; they are real numbers here, and
  \<^verbatim>\<open>std::atan2\<close> and \<^verbatim>\<open>M_PI\<close> are the function and the number they approximate.
\<close>

definition atan2 :: "real \<Rightarrow> real \<Rightarrow> real" where
  "atan2 b a =
     (if 0 < a then arctan (b / a)
      else if a < 0 \<and> 0 \<le> b then arctan (b / a) + pi
      else if a < 0 then arctan (b / a) - pi
      else if 0 < b then pi / 2
      else if b < 0 then - pi / 2
      else 0)"

definition direction :: "vec \<Rightarrow> vec \<Rightarrow> real" where
  "direction p0 p =
     (let a = atan2 (real_of_int (vy p) - real_of_int (vy p0))
                    (real_of_int (vx p) - real_of_int (vx p0))
      in if a < 0 then a + pi else a)"

definition sqdist :: "vec \<Rightarrow> vec \<Rightarrow> real" where
  "sqdist p0 p =
     (real_of_int (vx p) - real_of_int (vx p0)) * (real_of_int (vx p) - real_of_int (vx p0)) +
     (real_of_int (vy p) - real_of_int (vy p0)) * (real_of_int (vy p) - real_of_int (vy p0))"

fun colinearLoop :: "vec \<Rightarrow> real \<Rightarrow> vec list \<Rightarrow> bool" where
  "colinearLoop p0 a0 [] = True"
| "colinearLoop p0 a0 (p # rest) =
     (if sqdist p0 p > 1000000
      then (if \<bar>direction p0 p - a0\<bar> > 1 / 1000000 then False else colinearLoop p0 a0 rest)
      else colinearLoop p0 a0 rest)"

fun arePointsColinear :: "vec list \<Rightarrow> bool" where
  "arePointsColinear (pp0 # pp1 # rest) =
     (if rest = [] then True else colinearLoop pp0 (direction pp0 pp1) rest)"
| "arePointsColinear _ = True"

subsection \<open>kruskalMst\<close>

text \<open>
  The local variables of \<^verbatim>\<open>kruskalMst\<close>, with the two members it changes. The two counters
  are \<^verbatim>\<open>unsigned int\<close>: natural numbers with the wrap-around at \<open>2 ^ 32\<close> written out. The
  output \<open>mst\<close> keeps the two end points of each emitted edge as they are; they are turned
  into \<^verbatim>\<open>Point\<close>s when the list is returned, not at each \<^verbatim>\<open>append\<close>.
\<close>

record kstate =
  points :: "vec list"
  edges :: "edge list"
  tags :: "nat \<rightharpoonup> nat"
  cycles :: "nat list list"
  mstSize :: nat
  mstExpectedSize :: nat
  ratsnestLines :: bool
  mst :: "(vec \<times> vec) list"

text \<open>\<^verbatim>\<open>tags[k]\<close> on an \<^verbatim>\<open>unordered_map<int, int>\<close> reads \<open>0\<close> for a key that is not there.\<close>

definition tagOf :: "(nat \<rightharpoonup> nat) \<Rightarrow> nat \<Rightarrow> nat" where
  "tagOf tg k = (case tg k of None \<Rightarrow> 0 | Some t \<Rightarrow> t)"

fun initTags :: "vec list \<Rightarrow> nat \<Rightarrow> (nat \<rightharpoonup> nat) \<Rightarrow> vec list \<times> (nat \<rightharpoonup> nat)" where
  "initTags [] tag tg = ([], tg)"
| "initTags (node # rest) tag tg =
     (case initTags rest (tag + 1) (tg(vid node \<mapsto> tag)) of
        (rest', tg') \<Rightarrow> (node\<lparr>vtag := tag\<rparr> # rest', tg'))"

definition retag :: "vec list \<Rightarrow> nat list \<Rightarrow> nat \<Rightarrow> (nat \<rightharpoonup> nat) \<Rightarrow> (nat \<rightharpoonup> nat)" where
  "retag pts grp srcTag tg = fold (\<lambda>i t. t(vid (pts ! i) \<mapsto> srcTag)) grp tg"

definition setTags :: "nat list \<Rightarrow> nat \<Rightarrow> vec list \<Rightarrow> vec list" where
  "setTags grp srcTag pts = fold (\<lambda>i ps. ps[i := (ps ! i)\<lparr>vtag := srcTag\<rparr>]) grp pts"

text \<open>
  One run of the loop body. An index outside \<^verbatim>\<open>cycles\<close> or \<^verbatim>\<open>mPoints\<close> is undefined
  behaviour: \<open>None\<close>.
\<close>

definition loopBody :: "kstate \<Rightarrow> kstate option" where
  "loopBody s =
     (let dt = last (edges s);
          srcTag = tagOf (tags s) (vid (p1 dt));
          trgTag = tagOf (tags s) (vid (p2 dt))
      in if srcTag \<noteq> trgTag then
           if srcTag < length (cycles s) \<and> trgTag < length (cycles s) \<and>
              (\<forall>i \<in> set (cycles s ! trgTag). i < length (points s))
           then
             let rn = (ratsnestLines s \<or> 0 \<le> weight dt);
                 grp = cycles s ! trgTag;
                 s1 = (if rn
                       then s\<lparr>tags := retag (points s) grp srcTag (tags s),
                              mst := mst s @ [(p1 dt, p2 dt)],
                              mstSize := (mstSize s + 1) mod 2 ^ 32\<rparr>
                       else s\<lparr>tags := retag (points s) grp srcTag (tags s),
                              points := setTags grp srcTag (points s),
                              mstExpectedSize := (mstExpectedSize s + 2 ^ 32 - 1) mod 2 ^ 32\<rparr>)
             in Some (s1\<lparr>ratsnestLines := rn,
                         cycles := (cycles s)[srcTag := cycles s ! srcTag @ grp, trgTag := []],
                         edges := butlast (edges s)\<rparr>)
           else None
         else Some (s\<lparr>edges := butlast (edges s)\<rparr>))"

definition loopCond :: "kstate \<Rightarrow> bool" where
  "loopCond s \<longleftrightarrow> mstSize s < mstExpectedSize s \<and> edges s \<noteq> []"

function kruskalLoop :: "kstate \<Rightarrow> kstate option" where
  "kruskalLoop s =
     (if loopCond s
      then (case loopBody s of None \<Rightarrow> None | Some s' \<Rightarrow> kruskalLoop s')
      else Some s)"
  by pat_completeness auto
termination
  by (relation "measure (\<lambda>s. length (edges s))")
     (auto simp: loopCond_def loopBody_def Let_def split: if_splits)

declare kruskalLoop.simps [simp del]

definition kruskalInit :: "env \<Rightarrow> builder \<Rightarrow> kstate" where
  "kruskalInit L b =
     (let nodeNumber = length (mPoints b) mod 2 ^ 32;
          (pts, tg) = initTags (mPoints b) 0 Map.empty
      in \<lparr>points = pts,
          edges = sortEdges L (mEdges b),
          tags = tg,
          cycles = map (\<lambda>i. [i]) [0..<nodeNumber],
          mstSize = 0,
          mstExpectedSize = (nodeNumber + 2 ^ 32 - 1) mod 2 ^ 32,
          ratsnestLines = False,
          mst = []\<rparr>)"

text \<open>\<^verbatim>\<open>Point(v.x, v.y)\<close>.\<close>

definition coords :: "vec \<Rightarrow> point" where
  "coords v = (vx v, vy v)"

definition toAirWire :: "vec \<times> vec \<Rightarrow> airwire" where
  "toAirWire e = (coords (fst e), coords (snd e))"

definition kruskalMst :: "env \<Rightarrow> builder \<Rightarrow> (airwire list \<times> builder) option" where
  "kruskalMst L b =
     (case kruskalLoop (kruskalInit L b) of
        None \<Rightarrow> None
      | Some s \<Rightarrow> Some (map toAirWire (mst s), \<lparr>mPoints = points s, mEdges = edges s\<rparr>))"

subsection \<open>buildAirWires\<close>

definition pathEdges :: "vec list \<Rightarrow> edge list" where
  "pathEdges sortedPoints =
     map (\<lambda>i. \<lparr>p1 = sortedPoints ! (i - 1), p2 = sortedPoints ! i, weight = - 1\<rparr>)
       [1..<length sortedPoints]"

definition candidates :: "env \<Rightarrow> vec list \<Rightarrow> edge list" where
  "candidates L pts =
     (if length pts \<le> 1 then []
      else if length pts = 2 then [\<lparr>p1 = pts ! 0, p2 = pts ! 1, weight = - 1\<rparr>]
      else if arePointsColinear pts then pathEdges (sortPoints L pts)
      else triangulate L pts)"

definition setWeight :: "env \<Rightarrow> edge \<Rightarrow> edge" where
  "setWeight L e = e\<lparr>weight := dist2 L (p1 e) (p2 e)\<rparr>"

definition withCandidates :: "env \<Rightarrow> builder \<Rightarrow> builder" where
  "withCandidates L b =
     (let connectedEdges = length (mEdges b) mod 2 ^ 32;
          es = mEdges b @ candidates L (mPoints b)
      in b\<lparr>mEdges := take connectedEdges es @ map (setWeight L) (drop connectedEdges es)\<rparr>)"

definition buildAirWires :: "env \<Rightarrow> builder \<Rightarrow> (airwire list \<times> builder) option" where
  "buildAirWires L b = kruskalMst L (withCandidates L b)"

subsection \<open>The squared distance\<close>


text \<open>
  Modelled from the spec: \<^verbatim>\<open>Vector2::dist2\<close> is not part of the sources at hand; the spec
  has it return the squared distance of the two points. The sources at hand fix its types:
  it is called on a \<^verbatim>\<open>Vector2<qreal>\<close> and its result is stored in the \<^verbatim>\<open>qreal\<close> weight, so
  the two differences, the two squares and their sum are doubles, each rounded.
\<close>

definition qrealDist2 :: "vec \<Rightarrow> vec \<Rightarrow> int" where
  "qrealDist2 a b =
     (let dx = toQreal (vx a - vx b);
          dy = toQreal (vy a - vy b)
      in toQreal (toQreal (dx * dx) + toQreal (dy * dy)))"

subsection \<open>An environment with a stable sort\<close>

text \<open>
  A stable insertion sort for both calls of \<^verbatim>\<open>std::sort\<close>, and every pair of points as
  the triangulation (for three points that are not on a line this is their Delaunay
  triangulation).
\<close>

fun allPairs :: "vec list \<Rightarrow> edge list" where
  "allPairs [] = []"
| "allPairs (p # ps) = map (\<lambda>q. \<lparr>p1 = p, p2 = q, weight = - 1\<rparr>) ps @ allPairs ps"

definition stableEnv :: env where
  "stableEnv =
     \<lparr>sortEdges = sort_key (\<lambda>e. - weight e),
      sortPoints = sort_key vx,
      dist2 = qrealDist2,
      triangulate = allPairs\<rparr>"

subsection \<open>std::sort as GCC has it\<close>

text \<open>
  \<^verbatim>\<open>std::sort\<close> is not part of the sources at hand either; it comes with the compiler. This
  is the \<^verbatim>\<open>std::sort\<close> of libstdc++ (\<^verbatim>\<open>bits/stl_algo.h\<close>), function by function, on a list
  with positions for the iterators: an introsort that partitions ranges of more than 16
  elements around the median of three, followed by an insertion sort.
\<close>

definition iter_swap :: "'a list \<Rightarrow> nat \<Rightarrow> nat \<Rightarrow> 'a list" where
  "iter_swap xs i j = xs[i := xs ! j, j := xs ! i]"

definition move_median_to_first ::
  "('a \<Rightarrow> 'a \<Rightarrow> bool) \<Rightarrow> 'a list \<Rightarrow> nat \<Rightarrow> nat \<Rightarrow> nat \<Rightarrow> nat \<Rightarrow> 'a list" where
  "move_median_to_first cmp xs result a b c =
     (if cmp (xs ! a) (xs ! b) then
        if cmp (xs ! b) (xs ! c) then iter_swap xs result b
        else if cmp (xs ! a) (xs ! c) then iter_swap xs result c
        else iter_swap xs result a
      else if cmp (xs ! a) (xs ! c) then iter_swap xs result a
      else if cmp (xs ! b) (xs ! c) then iter_swap xs result c
      else iter_swap xs result b)"

text \<open>
  The two inner loops of \<^verbatim>\<open>__unguarded_partition\<close>: \<^verbatim>\<open>while (comp(first, pivot)) ++first\<close>
  and \<^verbatim>\<open>while (comp(pivot, last)) --last\<close>. They do not check for the ends of the range
  (the median of three stops them); here they stop at the ends of the list at the latest.
\<close>

definition scanUp :: "('a \<Rightarrow> 'a \<Rightarrow> bool) \<Rightarrow> 'a list \<Rightarrow> nat \<Rightarrow> nat \<Rightarrow> nat" where
  "scanUp cmp xs pivot first =
     first + length (takeWhile (\<lambda>x. cmp x (xs ! pivot)) (drop first xs))"

definition scanDown :: "('a \<Rightarrow> 'a \<Rightarrow> bool) \<Rightarrow> 'a list \<Rightarrow> nat \<Rightarrow> nat \<Rightarrow> nat" where
  "scanDown cmp xs pivot lst =
     lst - length (takeWhile (\<lambda>x. cmp (xs ! pivot) x) (rev (take (Suc lst) xs)))"

function unguarded_partition ::
  "('a \<Rightarrow> 'a \<Rightarrow> bool) \<Rightarrow> 'a list \<Rightarrow> nat \<Rightarrow> nat \<Rightarrow> nat \<Rightarrow> 'a list \<times> nat" where
  "unguarded_partition cmp xs first lst pivot =
     (let f = scanUp cmp xs pivot first;
          l = scanDown cmp xs pivot (lst - 1)
      in if f < l then unguarded_partition cmp (iter_swap xs f l) (f + 1) l pivot
         else (xs, f))"
  by pat_completeness auto
termination
  by (relation "measure (\<lambda>(cmp, xs, first, lst, pivot). lst - first)")
     (auto simp: scanUp_def scanDown_def)

declare unguarded_partition.simps [simp del]

definition unguarded_partition_pivot ::
  "('a \<Rightarrow> 'a \<Rightarrow> bool) \<Rightarrow> 'a list \<Rightarrow> nat \<Rightarrow> nat \<Rightarrow> 'a list \<times> nat" where
  "unguarded_partition_pivot cmp xs first lst =
     (let mid = first + (lst - first) div 2
      in unguarded_partition cmp (move_median_to_first cmp xs first (first + 1) mid (lst - 1))
           (first + 1) lst first)"

text \<open>
  \<^verbatim>\<open>__introsort_loop\<close>. When the depth limit is used up it sorts the range with a heap
  sort, which is not modelled: \<open>None\<close>. (The limit is twice the binary logarithm of the
  length; it is not reached on the lists sorted below.)
\<close>

fun introsort_loop ::
  "('a \<Rightarrow> 'a \<Rightarrow> bool) \<Rightarrow> nat \<Rightarrow> 'a list \<Rightarrow> nat \<Rightarrow> nat \<Rightarrow> 'a list option" where
  "introsort_loop cmp depth_limit xs first lst =
     (if 16 < lst - first then
        if depth_limit = 0 then None
        else
          (case unguarded_partition_pivot cmp xs first lst of
             (ys, cutp) \<Rightarrow>
               (case introsort_loop cmp (depth_limit - 1) ys cutp lst of
                  None \<Rightarrow> None
                | Some zs \<Rightarrow> introsort_loop cmp (depth_limit - 1) zs first cutp))
      else Some xs)"

declare introsort_loop.simps [simp del]

text \<open>\<^verbatim>\<open>std::__lg\<close>: the binary logarithm, rounded down.\<close>

fun lg :: "nat \<Rightarrow> nat" where
  "lg n = (if n < 2 then 0 else Suc (lg (n div 2)))"

declare lg.simps [simp del]

text \<open>
  \<^verbatim>\<open>__unguarded_linear_insert\<close> moves the element at \<open>lst\<close> down past every element before
  it that it is \<open>cmp\<close>-before.
\<close>

definition unguarded_linear_insert :: "('a \<Rightarrow> 'a \<Rightarrow> bool) \<Rightarrow> 'a list \<Rightarrow> nat \<Rightarrow> 'a list" where
  "unguarded_linear_insert cmp xs lst =
     (let val = xs ! lst;
          k = length (takeWhile (\<lambda>y. cmp val y) (rev (take lst xs)))
      in take (lst - k) xs @ [val] @ take k (drop (lst - k) xs) @ drop (Suc lst) xs)"

definition insertion_sort :: "('a \<Rightarrow> 'a \<Rightarrow> bool) \<Rightarrow> 'a list \<Rightarrow> nat \<Rightarrow> nat \<Rightarrow> 'a list" where
  "insertion_sort cmp xs first lst =
     (if first = lst then xs
      else fold (\<lambda>i ys. if cmp (ys ! i) (ys ! first)
                         then take first ys @ [ys ! i] @ take (i - first) (drop first ys) @
                              drop (Suc i) ys
                         else unguarded_linear_insert cmp ys i)
             [first + 1..<lst] xs)"

definition unguarded_insertion_sort ::
  "('a \<Rightarrow> 'a \<Rightarrow> bool) \<Rightarrow> 'a list \<Rightarrow> nat \<Rightarrow> nat \<Rightarrow> 'a list" where
  "unguarded_insertion_sort cmp xs first lst =
     fold (\<lambda>i ys. unguarded_linear_insert cmp ys i) [first..<lst] xs"

definition final_insertion_sort ::
  "('a \<Rightarrow> 'a \<Rightarrow> bool) \<Rightarrow> 'a list \<Rightarrow> nat \<Rightarrow> nat \<Rightarrow> 'a list" where
  "final_insertion_sort cmp xs first lst =
     (if 16 < lst - first
      then unguarded_insertion_sort cmp (insertion_sort cmp xs first (first + 16)) (first + 16) lst
      else insertion_sort cmp xs first lst)"

definition gnu_sort :: "('a \<Rightarrow> 'a \<Rightarrow> bool) \<Rightarrow> 'a list \<Rightarrow> 'a list option" where
  "gnu_sort cmp xs =
     (if xs = [] then Some xs
      else (case introsort_loop cmp (lg (length xs) * 2) xs 0 (length xs) of
              None \<Rightarrow> None
            | Some ys \<Rightarrow> Some (final_insertion_sort cmp ys 0 (length ys))))"

text \<open>The sort as a function on lists; \<open>other\<close> stands in where the heap sort would run.\<close>

definition gnu_std_sort ::
  "('a \<Rightarrow> 'a \<Rightarrow> bool) \<Rightarrow> ('a list \<Rightarrow> 'a list) \<Rightarrow> 'a list \<Rightarrow> 'a list" where
  "gnu_std_sort cmp other xs = (case gnu_sort cmp xs of Some ys \<Rightarrow> ys | None \<Rightarrow> other xs)"

subsection \<open>A Delaunay triangulation\<close>

text \<open>
  Modelled from the spec: the Delaunay triangulation (\<^verbatim>\<open>delaunay::Delaunay::triangulate\<close>
  and \<^verbatim>\<open>getEdges\<close>) is not part of the sources at hand. The spec has a planar Delaunay
  triangulation, whose edge set is taken: the triangles of the given points whose
  circumcircle has none of the points inside, each with its three sides. Three points on
  one line span no triangle, so a set of points on one line has no triangle and no edge.
\<close>

definition cross :: "vec \<Rightarrow> vec \<Rightarrow> vec \<Rightarrow> int" where
  "cross a b c = (vx b - vx a) * (vy c - vy a) - (vy b - vy a) * (vx c - vx a)"

definition inCircumcircle :: "vec \<Rightarrow> vec \<Rightarrow> vec \<Rightarrow> vec \<Rightarrow> bool" where
  "inCircumcircle a b c d =
     (let ax = vx a - vx d; ay = vy a - vy d;
          bx = vx b - vx d; bY = vy b - vy d;
          cx = vx c - vx d; cy = vy c - vy d;
          det = (ax * ax + ay * ay) * (bx * cy - cx * bY)
              - (bx * bx + bY * bY) * (ax * cy - cx * ay)
              + (cx * cx + cy * cy) * (ax * bY - bx * ay)
      in 0 < det * cross a b c)"

definition delaunayTriangles :: "vec list \<Rightarrow> (vec \<times> vec \<times> vec) list" where
  "delaunayTriangles pts =
     [(pts ! i, pts ! j, pts ! k).
        i \<leftarrow> [0..<length pts], j \<leftarrow> [i + 1..<length pts], k \<leftarrow> [j + 1..<length pts],
        cross (pts ! i) (pts ! j) (pts ! k) \<noteq> 0 \<and>
        list_all (\<lambda>d. \<not> inCircumcircle (pts ! i) (pts ! j) (pts ! k) d) pts]"

fun triangleEdges :: "vec \<times> vec \<times> vec \<Rightarrow> edge list" where
  "triangleEdges (a, b, c) =
     [\<lparr>p1 = a, p2 = b, weight = - 1\<rparr>, \<lparr>p1 = b, p2 = c, weight = - 1\<rparr>,
      \<lparr>p1 = c, p2 = a, weight = - 1\<rparr>]"

definition delaunayEdges :: "vec list \<Rightarrow> edge list" where
  "delaunayEdges pts = concat (map triangleEdges (delaunayTriangles pts))"

subsection \<open>An environment with the sort of GCC\<close>

text \<open>
  The \<^verbatim>\<open>std::sort\<close> of libstdc++ for both calls, the rounded squared distance and the
  Delaunay triangulation above.
\<close>

definition gnuEnv :: env where
  "gnuEnv =
     \<lparr>sortEdges = gnu_std_sort (\<lambda>a b. weight a > weight b) (sort_key (\<lambda>e. - weight e)),
      sortPoints = gnu_std_sort (\<lambda>a b. vx a < vx b) (sort_key vx),
      dist2 = qrealDist2,
      triangulate = delaunayEdges\<rparr>"

text \<open>Registering a list of points, then a list of known edges, on a fresh builder.\<close>

fun addPoints :: "builder \<Rightarrow> point list \<Rightarrow> builder" where
  "addPoints b [] = b"
| "addPoints b (p # ps) = addPoints (snd (addPoint b p)) ps"

fun addEdges :: "builder \<Rightarrow> (nat \<times> nat) list \<Rightarrow> builder option" where
  "addEdges b [] = Some b"
| "addEdges b (e # es) =
     (case addEdge b (fst e) (snd e) of None \<Rightarrow> None | Some b' \<Rightarrow> addEdges b' es)"

definition mkBuilder :: "point list \<Rightarrow> (nat \<times> nat) list \<Rightarrow> builder option" where
  "mkBuilder ps es = addEdges (addPoints empty_builder ps) es"

definition airWiresOf :: "env \<Rightarrow> point list \<Rightarrow> (nat \<times> nat) list \<Rightarrow> airwire list option" where
  "airWiresOf L ps es =
     (case mkBuilder ps es of
        None \<Rightarrow> None
      | Some b \<Rightarrow> map_option fst (buildAirWires L b))"

section \<open>Connectivity, components and the invariant of the selector\<close>

text \<open>
  \<open>conn E\<close> is the connectivity of the undirected graph with edge set \<open>E\<close>: the least
  equivalence relation that holds of the two ends of every edge.
\<close>

definition conn :: "('a \<times> 'a) set \<Rightarrow> ('a \<times> 'a) set" where
  "conn E = (E \<union> E\<inverse>)\<^sup>*"

text \<open>The connected components of the points \<open>0, \<dots>, n - 1\<close> under the edges \<open>E\<close>.\<close>

definition components :: "nat \<Rightarrow> (nat \<times> nat) set \<Rightarrow> nat set set" where
  "components n E = (\<lambda>i. {j. j < n \<and> (i, j) \<in> conn E}) ` {..<n}"

definition idPair :: "edge \<Rightarrow> nat \<times> nat" where
  "idPair e = (vid (p1 e), vid (p2 e))"

text \<open>A known edge carries the weight \<open>-1\<close>, a candidate edge a squared distance.\<close>

definition knownPairs :: "edge list \<Rightarrow> (nat \<times> nat) set" where
  "knownPairs es = idPair ` {e \<in> set es. weight e < 0}"

definition mstPairs :: "(vec \<times> vec) list \<Rightarrow> (nat \<times> nat) set" where
  "mstPairs m = (\<lambda>w. (vid (fst w), vid (snd w))) ` set m"

text \<open>
  \<open>copyOf pts v\<close>: the vector \<open>v\<close> held by an edge is a copy of a registered point (tags
  apart).
\<close>

definition copyOf :: "vec list \<Rightarrow> vec \<Rightarrow> bool" where
  "copyOf pts v \<longleftrightarrow>
     vid v < length pts \<and> vx v = vx (pts ! vid v) \<and> vy v = vy (pts ! vid v)"

text \<open>
  \<open>prepared b\<close>: what \<^verbatim>\<open>kruskalMst\<close> relies on. Every point has its position as id and
  every edge joins copies of registered points; the sizes fit their C++ types.
\<close>

definition prepared :: "builder \<Rightarrow> bool" where
  "prepared b \<longleftrightarrow>
     length (mPoints b) < 2 ^ 31 \<and>
     (\<forall>i < length (mPoints b). vid (mPoints b ! i) = i) \<and>
     (\<forall>e \<in> set (mEdges b). copyOf (mPoints b) (p1 e) \<and> copyOf (mPoints b) (p2 e))"

text \<open>
  \<open>fresh b\<close>: a builder as \<^verbatim>\<open>addPoint\<close> and \<^verbatim>\<open>addEdge\<close> leave it, before
  \<^verbatim>\<open>buildAirWires\<close> has run: all its edges are known edges.
\<close>

definition fresh :: "builder \<Rightarrow> bool" where
  "fresh b \<longleftrightarrow> prepared b \<and> length (mEdges b) < 2 ^ 32 \<and> (\<forall>e \<in> set (mEdges b). weight e = - 1)"

text \<open>
  The invariant of the loop of \<^verbatim>\<open>kruskalMst\<close> over \<open>n\<close> points, where \<open>dn\<close> are the edges
  already taken from the back of the sorted list.
\<close>

definition tagsInv :: "nat \<Rightarrow> kstate \<Rightarrow> bool" where
  "tagsInv n s \<longleftrightarrow>
     length (points s) = n \<and> (\<forall>i<n. vid (points s ! i) = i) \<and>
     length (cycles s) = n \<and> (\<forall>i<n. tagOf (tags s) i < n) \<and>
     (\<forall>t<n. set (cycles s ! t) = {i. i < n \<and> tagOf (tags s) i = t})"

definition partInv :: "nat \<Rightarrow> edge list \<Rightarrow> kstate \<Rightarrow> bool" where
  "partInv n dn s \<longleftrightarrow>
     (\<forall>i<n. \<forall>j<n. (tagOf (tags s) i = tagOf (tags s) j) \<longleftrightarrow>
        (i, j) \<in> conn (knownPairs dn \<union> mstPairs (mst s)))"

definition countInv :: "nat \<Rightarrow> kstate \<Rightarrow> bool" where
  "countInv n s \<longleftrightarrow>
     mstSize s \<le> mstExpectedSize s \<and> mstExpectedSize s < 2 ^ 32 \<and>
     card (tagOf (tags s) ` {..<n}) + mstSize s = mstExpectedSize s + 1 \<and>
     length (mst s) = mstSize s \<and> (\<not> ratsnestLines s \<longrightarrow> mst s = [])"

definition phaseInv :: "edge list \<Rightarrow> kstate \<Rightarrow> bool" where
  "phaseInv dn s \<longleftrightarrow>
     (ratsnestLines s \<longrightarrow> (\<exists>e \<in> set dn. 0 \<le> weight e)) \<and>
     (\<forall>w \<in> set (mst s). \<exists>e \<in> set dn. 0 \<le> weight e \<and> w = (p1 e, p2 e)) \<and>
     (\<forall>e \<in> set dn. tagOf (tags s) (vid (p1 e)) = tagOf (tags s) (vid (p2 e)))"

definition knownInv :: "nat \<Rightarrow> edge list \<Rightarrow> kstate \<Rightarrow> bool" where
  "knownInv n dn s \<longleftrightarrow> card (components n (knownPairs dn)) = mstExpectedSize s + 1"

text \<open>
  The edges a Kruskal selection takes from the sequence \<open>cs\<close> when the edges \<open>E\<close> are
  already there: an edge is taken exactly when its two ends are not connected yet.
\<close>

fun greedy :: "(nat \<times> nat) set \<Rightarrow> edge list \<Rightarrow> (vec \<times> vec) list" where
  "greedy E [] = []"
| "greedy E (c # cs) =
     (if idPair c \<in> conn E then greedy E cs
      else (p1 c, p2 c) # greedy (insert (idPair c) E) cs)"

definition greedyInv :: "edge list \<Rightarrow> kstate \<Rightarrow> bool" where
  "greedyInv es0 s \<longleftrightarrow>
     mst s @ greedy (knownPairs es0 \<union> mstPairs (mst s)) (rev (filter (\<lambda>e. 0 \<le> weight e) (edges s)))
       = greedy (knownPairs es0) (rev (filter (\<lambda>e. 0 \<le> weight e) es0))"

definition kinv :: "nat \<Rightarrow> edge list \<Rightarrow> edge list \<Rightarrow> kstate \<Rightarrow> bool" where
  "kinv n es0 dn s \<longleftrightarrow>
     es0 = edges s @ dn \<and> tagsInv n s \<and> partInv n dn s \<and> countInv n s \<and>
     phaseInv dn s \<and> knownInv n dn s \<and> greedyInv es0 s"

text \<open>What does not change while the loop runs: the sorted list and the number of points.\<close>

definition kstatic :: "nat \<Rightarrow> edge list \<Rightarrow> bool" where
  "kstatic n es0 \<longleftrightarrow>
     0 < n \<and> n < 2 ^ 32 \<and> sorted_wrt (\<lambda>a b. weight b \<le> weight a) es0 \<and>
     (\<forall>e \<in> set es0. vid (p1 e) < n \<and> vid (p2 e) < n)"

text \<open>The tags after a merge, whatever else the step changes.\<close>

definition merged :: "nat \<Rightarrow> kstate \<Rightarrow> nat \<Rightarrow> nat \<Rightarrow> kstate \<Rightarrow> bool" where
  "merged n s a b s' \<longleftrightarrow>
     (\<forall>k. tagOf (tags s') k =
        (if k < n \<and> tagOf (tags s) k = tagOf (tags s) b then tagOf (tags s) a else tagOf (tags s) k)) \<and>
     cycles s' = (cycles s)[tagOf (tags s) a := cycles s ! tagOf (tags s) a @ cycles s ! tagOf (tags s) b,
                            tagOf (tags s) b := []] \<and>
     length (points s') = length (points s) \<and>
     (\<forall>i < length (points s). vid (points s' ! i) = vid (points s ! i))"

definition allConnected :: "nat \<Rightarrow> (nat \<times> nat) set \<Rightarrow> bool" where
  "allConnected n E \<longleftrightarrow> (\<forall>i<n. \<forall>j<n. (i, j) \<in> conn E)"

text \<open>What \<^verbatim>\<open>addPoint\<close> stores of a point: its coordinates and its id.\<close>

definition geom :: "vec \<Rightarrow> int \<times> int \<times> nat" where
  "geom v = (vx v, vy v, vid v)"

text \<open>The state after at most \<open>k\<close> runs of the loop body.\<close>

fun kruskalSteps :: "nat \<Rightarrow> kstate \<Rightarrow> kstate option" where
  "kruskalSteps 0 s = Some s"
| "kruskalSteps (Suc k) s =
     (if loopCond s
      then (case loopBody s of None \<Rightarrow> None | Some s' \<Rightarrow> kruskalSteps k s')
      else Some s)"

text \<open>
  Modelled from the spec: the Delaunay triangulation (\<^verbatim>\<open>delaunay::Delaunay::triangulate\<close>
  and \<^verbatim>\<open>getEdges\<close>) is not part of the sources at hand. The spec has it return edges
  between the given points.
\<close>

definition triangulation_ok :: "env \<Rightarrow> vec list \<Rightarrow> bool" where
  "triangulation_ok L pts \<longleftrightarrow>
     (\<forall>e \<in> set (triangulate L pts). copyOf pts (p1 e) \<and> copyOf pts (p2 e))"

text \<open>The edge list \<^verbatim>\<open>buildAirWires\<close> hands to \<^verbatim>\<open>kruskalMst\<close> when it starts from a fresh builder.\<close>

definition allEdges :: "env \<Rightarrow> builder \<Rightarrow> edge list" where
  "allEdges L b = mEdges b @ map (setWeight L) (candidates L (mPoints b))"

text \<open>A builder of the unit tests: two points with a known edge between them.\<close>

definition twoJoined :: builder where
  "twoJoined =
     \<lparr>mPoints = [\<lparr>vx = 100, vy = 200, vid = 0, vtag = 0\<rparr>, \<lparr>vx = 300, vy = 400, vid = 1, vtag = 0\<rparr>],
      mEdges = [\<lparr>p1 = \<lparr>vx = 100, vy = 200, vid = 0, vtag = 0\<rparr>,
                 p2 = \<lparr>vx = 300, vy = 400, vid = 1, vtag = 0\<rparr>, weight = - 1\<rparr>]\<rparr>"

text \<open>Two calls of \<^verbatim>\<open>buildAirWires\<close> on one builder: the air wires of the first and of the second.\<close>

definition buildTwice :: "env \<Rightarrow> builder \<Rightarrow> (airwire list \<times> airwire list) option" where
  "buildTwice L b =
     (case buildAirWires L b of
        None \<Rightarrow> None
      | Some (ws, b') \<Rightarrow>
          (case buildAirWires L b' of None \<Rightarrow> None | Some (ws', b'') \<Rightarrow> Some (ws, ws')))"

text \<open>
  Three points on a line, ten nanometres apart, the first and the third joined by a known
  edge; and the same builder after \<^verbatim>\<open>addEdge(1, 1)\<close>.
\<close>

definition threeInLine :: builder where
  "threeInLine =
     \<lparr>mPoints = [\<lparr>vx = 0, vy = 0, vid = 0, vtag = 0\<rparr>, \<lparr>vx = 10, vy = 0, vid = 1, vtag = 0\<rparr>,
                 \<lparr>vx = 20, vy = 0, vid = 2, vtag = 0\<rparr>],
      mEdges = [\<lparr>p1 = \<lparr>vx = 0, vy = 0, vid = 0, vtag = 0\<rparr>,
                 p2 = \<lparr>vx = 20, vy = 0, vid = 2, vtag = 0\<rparr>, weight = - 1\<rparr>]\<rparr>"

definition threeInLineSelf :: builder where
  "threeInLineSelf =
     threeInLine\<lparr>mEdges := mEdges threeInLine @
        [\<lparr>p1 = mPoints threeInLine ! 1, p2 = mPoints threeInLine ! 1, weight = - 1\<rparr>]\<rparr>"

text \<open>
  Three points on a line at uneven distances, ten and twenty nanometres, the first and the
  third joined by a known edge; and the same builder after \<^verbatim>\<open>addEdge(1, 1)\<close>.
\<close>

definition unevenLine :: builder where
  "unevenLine =
     \<lparr>mPoints = [\<lparr>vx = 0, vy = 0, vid = 0, vtag = 0\<rparr>, \<lparr>vx = 10, vy = 0, vid = 1, vtag = 0\<rparr>,
                 \<lparr>vx = 30, vy = 0, vid = 2, vtag = 0\<rparr>],
      mEdges = [\<lparr>p1 = \<lparr>vx = 0, vy = 0, vid = 0, vtag = 0\<rparr>,
                 p2 = \<lparr>vx = 30, vy = 0, vid = 2, vtag = 0\<rparr>, weight = - 1\<rparr>]\<rparr>"

definition unevenLineSelf :: builder where
  "unevenLineSelf =
     unevenLine\<lparr>mEdges := mEdges unevenLine @
        [\<lparr>p1 = mPoints unevenLine ! 1, p2 = mPoints unevenLine ! 1, weight = - 1\<rparr>]\<rparr>"

text \<open>
  The edges of these three points: the known edge between the first and the third, the
  self-edge of \<^verbatim>\<open>addEdge(1, 1)\<close>, and the two candidate edges of the path, each with the
  weight \<open>100\<close>.
\<close>

definition linePoints :: "vec list" where
  "linePoints = [\<lparr>vx = 0, vy = 0, vid = 0, vtag = 0\<rparr>, \<lparr>vx = 10, vy = 0, vid = 1, vtag = 0\<rparr>,
                 \<lparr>vx = 20, vy = 0, vid = 2, vtag = 0\<rparr>]"

definition known02 :: edge where
  "known02 = \<lparr>p1 = linePoints ! 0, p2 = linePoints ! 2, weight = - 1\<rparr>"

definition self11 :: edge where
  "self11 = \<lparr>p1 = linePoints ! 1, p2 = linePoints ! 1, weight = - 1\<rparr>"

definition cand01 :: edge where
  "cand01 = \<lparr>p1 = linePoints ! 0, p2 = linePoints ! 1, weight = 100\<rparr>"

definition cand12 :: edge where
  "cand12 = \<lparr>p1 = linePoints ! 1, p2 = linePoints ! 2, weight = 100\<rparr>"

text \<open>
  The three points with the known edge registered \<open>k\<close> times, followed by the known edges
  \<open>es\<close>.
\<close>

definition lineBuilder :: "nat \<Rightarrow> edge list \<Rightarrow> builder" where
  "lineBuilder k es = \<lparr>mPoints = linePoints, mEdges = replicate k known02 @ es\<rparr>"

text \<open>The candidate edges in a list of edges: those with a weight that is not negative.\<close>

definition candidateEdges :: "edge list \<Rightarrow> edge list" where
  "candidateEdges es = filter (\<lambda>e. 0 \<le> weight e) es"


text \<open>
  Three points on a horizontal line, the second two micrometres to the left and the third
  two micrometres to the right of the first; and the three points of the unit test
  \<^verbatim>\<open>testThreeUnconnectedColinearPoints\<close>, which lie on both sides of the first one too, a
  hundred nanometres from it.
\<close>

definition spreadPoints :: "vec list" where
  "spreadPoints = [\<lparr>vx = 0, vy = 0, vid = 0, vtag = 0\<rparr>, \<lparr>vx = - 2000, vy = 0, vid = 1, vtag = 0\<rparr>,
                   \<lparr>vx = 2000, vy = 0, vid = 2, vtag = 0\<rparr>]"

definition nearPoints :: "vec list" where
  "nearPoints = [\<lparr>vx = 0, vy = 0, vid = 0, vtag = 0\<rparr>, \<lparr>vx = 100, vy = 0, vid = 1, vtag = 0\<rparr>,
                 \<lparr>vx = - 100, vy = 0, vid = 2, vtag = 0\<rparr>]"


section \<open>Connectivity and components\<close>

lemma conn_refl: "(a, a) \<in> conn E"
  by (simp add: conn_def)

lemma conn_sym: "(a, b) \<in> conn E \<Longrightarrow> (b, a) \<in> conn E"
proof -
  have "sym ((E \<union> E\<inverse>)\<^sup>*)" by (rule sym_rtrancl) (auto simp: sym_def)
  then show "(a, b) \<in> conn E \<Longrightarrow> (b, a) \<in> conn E" by (auto simp: conn_def sym_def)
qed

lemma conn_trans: "(a, b) \<in> conn E \<Longrightarrow> (b, c) \<in> conn E \<Longrightarrow> (a, c) \<in> conn E"
  by (simp add: conn_def)

lemma conn_edge: "(a, b) \<in> E \<Longrightarrow> (a, b) \<in> conn E"
  by (auto simp: conn_def)

lemma conn_mono: "E \<subseteq> F \<Longrightarrow> conn E \<subseteq> conn F"
  unfolding conn_def by (rule rtrancl_mono) auto

lemma conn_least:
  assumes "(x, y) \<in> conn E"
    and "\<And>a. (a, a) \<in> R" and "\<And>a b. (a, b) \<in> E \<Longrightarrow> (a, b) \<in> R"
    and "\<And>a b. (a, b) \<in> R \<Longrightarrow> (b, a) \<in> R"
    and "\<And>a b c. (a, b) \<in> R \<Longrightarrow> (b, c) \<in> R \<Longrightarrow> (a, c) \<in> R"
  shows "(x, y) \<in> R"
  using assms(1) unfolding conn_def
proof (induction rule: rtrancl_induct)
  case base
  show ?case by (rule assms(2))
next
  case (step y z)
  from step.hyps(2) have "(y, z) \<in> R" using assms(3,4) by auto
  with step.IH show ?case by (rule assms(5))
qed

lemma conn_insert:
  "(x, y) \<in> conn (insert (a, b) E) \<longleftrightarrow>
     (x, y) \<in> conn E \<or> ((x, a) \<in> conn E \<and> (b, y) \<in> conn E) \<or> ((x, b) \<in> conn E \<and> (a, y) \<in> conn E)"
  (is "?L \<longleftrightarrow> ?R")
proof
  assume ?L
  let ?S = "{(x, y). (x, y) \<in> conn E \<or> ((x, a) \<in> conn E \<and> (b, y) \<in> conn E) \<or> ((x, b) \<in> conn E \<and> (a, y) \<in> conn E)}"
  have "(x, y) \<in> ?S"
  proof (rule conn_least [OF \<open>?L\<close>])
    show "\<And>a. (a, a) \<in> ?S" by (simp add: conn_refl)
    show "\<And>c d. (c, d) \<in> insert (a, b) E \<Longrightarrow> (c, d) \<in> ?S"
      by (auto simp: conn_refl conn_edge)
    show "\<And>c d. (c, d) \<in> ?S \<Longrightarrow> (d, c) \<in> ?S"
      by (auto dest: conn_sym)
    show "\<And>c d e. (c, d) \<in> ?S \<Longrightarrow> (d, e) \<in> ?S \<Longrightarrow> (c, e) \<in> ?S"
      by (auto; meson conn_sym conn_trans)
  qed
  then show ?R by simp
next
  assume r: ?R
  have m: "conn E \<subseteq> conn (insert (a, b) E)" by (rule conn_mono) auto
  have ab: "(a, b) \<in> conn (insert (a, b) E)" by (rule conn_edge) simp
  from r m ab show ?L
    by (meson conn_sym conn_trans subsetD)
qed

lemma conn_absorb: "(a, b) \<in> conn E \<Longrightarrow> conn (insert (a, b) E) = conn E"
proof -
  assume ab: "(a, b) \<in> conn E"
  have "(x, y) \<in> conn (insert (a, b) E) \<longleftrightarrow> (x, y) \<in> conn E" for x y
    unfolding conn_insert using ab by (meson conn_sym conn_trans)
  then show ?thesis by auto
qed

lemma conn_insert_cong: "conn E = conn F \<Longrightarrow> conn (insert e E) = conn (insert e F)"
proof -
  assume eq: "conn E = conn F"
  obtain a b where e: "e = (a, b)" by (cases e)
  have "(x, y) \<in> conn (insert e E) \<longleftrightarrow> (x, y) \<in> conn (insert e F)" for x y
    unfolding e conn_insert eq ..
  then show ?thesis by auto
qed

lemma conn_image: "(a, b) \<in> conn E \<Longrightarrow> (f a, f b) \<in> conn (map_prod f f ` E)"
proof -
  assume ab: "(a, b) \<in> conn E"
  let ?R = "{(x, y). (f x, f y) \<in> conn (map_prod f f ` E)}"
  have "(a, b) \<in> ?R"
  proof (rule conn_least [OF ab])
    show "\<And>a. (a, a) \<in> ?R" by (simp add: conn_refl)
    show "\<And>a b. (a, b) \<in> E \<Longrightarrow> (a, b) \<in> ?R"
      by (simp, rule conn_edge, force)
    show "\<And>a b. (a, b) \<in> ?R \<Longrightarrow> (b, a) \<in> ?R"
      by (simp add: conn_sym)
    show "\<And>a b c. (a, b) \<in> ?R \<Longrightarrow> (b, c) \<in> ?R \<Longrightarrow> (a, c) \<in> ?R"
      using conn_trans by fastforce
  qed
  then show ?thesis by simp
qed

lemma components_by_tags:
  assumes "\<forall>i<n. \<forall>j<n. (f i = f j) \<longleftrightarrow> (i, j) \<in> conn E"
  shows "card (components n E) = card (f ` {..<n})"
proof -
  let ?g = "\<lambda>t. {j. j < n \<and> f j = t}"
  have "{j. j < n \<and> (i, j) \<in> conn E} = ?g (f i)" if "i < n" for i
    using assms that by (auto dest: conn_sym)
  then have "components n E = ?g ` (f ` {..<n})"
    unfolding components_def image_image by auto
  moreover have "inj_on ?g (f ` {..<n})"
    by (rule inj_onI) auto
  ultimately show ?thesis by (simp add: card_image)
qed

lemma components_all_connected:
  assumes "0 < n" "\<forall>i<n. \<forall>j<n. (i, j) \<in> conn E"
  shows "card (components n E) = 1"
proof -
  have "card (components n E) = card ((\<lambda>i. 0::nat) ` {..<n})"
    by (rule components_by_tags) (use assms in simp)
  also have "(\<lambda>i. 0::nat) ` {..<n} = {0}" using assms(1) by auto
  finally show ?thesis by simp
qed

lemma components_card_one:
  assumes "card (components n E) = 1" "i < n" "j < n"
  shows "(i, j) \<in> conn E"
proof -
  from assms(1) obtain C where C: "components n E = {C}" by (auto simp: card_1_singleton_iff)
  have "{k. k < n \<and> (i, k) \<in> conn E} \<in> components n E" "{k. k < n \<and> (j, k) \<in> conn E} \<in> components n E"
    using assms(2,3) by (auto simp: components_def)
  with C have "{k. k < n \<and> (i, k) \<in> conn E} = {k. k < n \<and> (j, k) \<in> conn E}" by simp
  moreover have "j \<in> {k. k < n \<and> (j, k) \<in> conn E}" using assms(3) by (simp add: conn_refl)
  ultimately show ?thesis by blast
qed

lemma components_empty: "card (components n {}) = n"
proof -
  have "card (components n {}) = card ((\<lambda>i. i) ` {..<n})"
    by (rule components_by_tags) (auto simp: conn_def)
  then show ?thesis by simp
qed

section \<open>The loop of kruskalMst keeps its invariant\<close>

lemma retag_tagOf:
  "\<forall>i \<in> set grp. vid (pts ! i) = i \<Longrightarrow>
   tagOf (retag pts grp t tg) k = (if k \<in> set grp then t else tagOf tg k)"
  unfolding retag_def
proof (induction grp arbitrary: tg)
  case Nil
  show ?case by simp
next
  case (Cons i grp)
  then show ?case by (auto simp: tagOf_def)
qed

lemma setTags_length: "length (setTags grp t pts) = length pts"
  unfolding setTags_def by (induction grp arbitrary: pts) auto

lemma setTags_nth:
  "i < length pts \<Longrightarrow>
   vid (setTags grp t pts ! i) = vid (pts ! i) \<and> vx (setTags grp t pts ! i) = vx (pts ! i) \<and>
   vy (setTags grp t pts ! i) = vy (pts ! i)"
  unfolding setTags_def
proof (induction grp arbitrary: pts)
  case Nil
  show ?case by simp
next
  case (Cons j grp)
  have "vid (pts[j := (pts ! j)\<lparr>vtag := t\<rparr>] ! i) = vid (pts ! i) \<and>
        vx (pts[j := (pts ! j)\<lparr>vtag := t\<rparr>] ! i) = vx (pts ! i) \<and>
        vy (pts[j := (pts ! j)\<lparr>vtag := t\<rparr>] ! i) = vy (pts ! i)"
    using Cons.prems by (cases "i = j") simp_all
  moreover have "i < length (pts[j := (pts ! j)\<lparr>vtag := t\<rparr>])" using Cons.prems by simp
  ultimately show ?case using Cons.IH [of "pts[j := (pts ! j)\<lparr>vtag := t\<rparr>]"] by simp
qed

lemma merge_partition:
  assumes part: "\<forall>i<n. \<forall>j<n. (f i = f j) \<longleftrightarrow> (i, j) \<in> conn E"
    and a: "a < (n::nat)" and b: "b < n"
    and f': "\<forall>k<n. f' k = (if f k = f b then f a else f k)"
  shows "\<forall>i<n. \<forall>j<n. (f' i = f' j) \<longleftrightarrow> (i, j) \<in> conn (insert (a, b) E)"
proof (intro allI impI)
  fix i j assume i: "i < n" and j: "j < n"
  have c: "(u, v) \<in> conn E \<longleftrightarrow> f u = f v" if "u < n" "v < n" for u v
    using part that by simp
  show "(f' i = f' j) \<longleftrightarrow> (i, j) \<in> conn (insert (a, b) E)"
    unfolding conn_insert using f' i j a b by (auto simp: c)
qed

lemma merge_card:
  assumes a: "a < (n::nat)" and b: "b < n" and ne: "f a \<noteq> f b"
    and f': "\<forall>k<n. f' k = (if f k = f b then f a else f k)"
  shows "card (f' ` {..<n}) + 1 = card (f ` {..<n})"
proof -
  have "f' ` {..<n} = f ` {..<n} - {f b}"
  proof (intro set_eqI iffI)
    fix t assume "t \<in> f' ` {..<n}"
    then obtain k where k: "k < n" "t = f' k" by auto
    with f' a ne show "t \<in> f ` {..<n} - {f b}" by (auto split: if_splits)
  next
    fix t assume "t \<in> f ` {..<n} - {f b}"
    then obtain k where k: "k < n" "t = f k" "f k \<noteq> f b" by auto
    with f' have "f' k = t" by simp
    with k(1) show "t \<in> f' ` {..<n}" by blast
  qed
  moreover have "f b \<in> f ` {..<n}" using b by auto
  moreover have "finite (f ` {..<n})" by simp
  ultimately show ?thesis using card_Suc_Diff1 [of "f ` {..<n}" "f b"] by simp
qed

lemma retag_cycles:
  assumes "tagsInv n s" "trg < n"
  shows "tagOf (retag (points s) (cycles s ! trg) src (tags s)) k =
         (if k < n \<and> tagOf (tags s) k = trg then src else tagOf (tags s) k)"
proof -
  have "\<forall>i \<in> set (cycles s ! trg). vid (points s ! i) = i"
    using assms by (auto simp: tagsInv_def)
  then show ?thesis using assms by (simp add: retag_tagOf tagsInv_def)
qed

lemma step_same:
  "tagOf (tags s) (vid (p1 (last (edges s)))) = tagOf (tags s) (vid (p2 (last (edges s)))) \<Longrightarrow>
   loopBody s = Some (s\<lparr>edges := butlast (edges s)\<rparr>)"
  by (simp add: loopBody_def Let_def)

lemma step_emit:
  assumes "tagsInv n s"
    and "vid (p1 (last (edges s))) < n" "vid (p2 (last (edges s))) < n"
    and "tagOf (tags s) (vid (p1 (last (edges s)))) \<noteq> tagOf (tags s) (vid (p2 (last (edges s))))"
    and "ratsnestLines s \<or> 0 \<le> weight (last (edges s))"
  shows "loopBody s = Some (s\<lparr>tags := retag (points s) (cycles s ! tagOf (tags s) (vid (p2 (last (edges s)))))
                                    (tagOf (tags s) (vid (p1 (last (edges s))))) (tags s),
              mst := mst s @ [(p1 (last (edges s)), p2 (last (edges s)))],
              mstSize := (mstSize s + 1) mod 2 ^ 32,
              ratsnestLines := True,
              cycles := (cycles s)[tagOf (tags s) (vid (p1 (last (edges s)))) :=
                           cycles s ! tagOf (tags s) (vid (p1 (last (edges s)))) @
                           cycles s ! tagOf (tags s) (vid (p2 (last (edges s)))),
                         tagOf (tags s) (vid (p2 (last (edges s)))) := []],
              edges := butlast (edges s)\<rparr>)"
proof -
  have "tagOf (tags s) (vid (p1 (last (edges s)))) < length (cycles s)"
       "tagOf (tags s) (vid (p2 (last (edges s)))) < length (cycles s)"
       "\<forall>i \<in> set (cycles s ! tagOf (tags s) (vid (p2 (last (edges s))))). i < length (points s)"
    using assms(1,2,3) by (auto simp: tagsInv_def)
  then show ?thesis using assms(4,5) by (simp add: loopBody_def Let_def)
qed

lemma step_known:
  assumes "tagsInv n s"
    and "vid (p1 (last (edges s))) < n" "vid (p2 (last (edges s))) < n"
    and "tagOf (tags s) (vid (p1 (last (edges s)))) \<noteq> tagOf (tags s) (vid (p2 (last (edges s))))"
    and "\<not> ratsnestLines s" "weight (last (edges s)) < 0"
  shows "loopBody s = Some (s\<lparr>tags := retag (points s) (cycles s ! tagOf (tags s) (vid (p2 (last (edges s)))))
                                    (tagOf (tags s) (vid (p1 (last (edges s))))) (tags s),
              points := setTags (cycles s ! tagOf (tags s) (vid (p2 (last (edges s)))))
                                (tagOf (tags s) (vid (p1 (last (edges s))))) (points s),
              mstExpectedSize := (mstExpectedSize s + 2 ^ 32 - 1) mod 2 ^ 32,
              ratsnestLines := False,
              cycles := (cycles s)[tagOf (tags s) (vid (p1 (last (edges s)))) :=
                           cycles s ! tagOf (tags s) (vid (p1 (last (edges s)))) @
                           cycles s ! tagOf (tags s) (vid (p2 (last (edges s)))),
                         tagOf (tags s) (vid (p2 (last (edges s)))) := []],
              edges := butlast (edges s)\<rparr>)"
proof -
  have "tagOf (tags s) (vid (p1 (last (edges s)))) < length (cycles s)"
       "tagOf (tags s) (vid (p2 (last (edges s)))) < length (cycles s)"
       "\<forall>i \<in> set (cycles s ! tagOf (tags s) (vid (p2 (last (edges s))))). i < length (points s)"
    using assms(1,2,3) by (auto simp: tagsInv_def)
  then show ?thesis using assms(4,5,6) by (simp add: loopBody_def Let_def)
qed

lemma merged_tagsInv:
  assumes "tagsInv n s" "a < n" "b < n" "tagOf (tags s) a \<noteq> tagOf (tags s) b" "merged n s a b s'"
  shows "tagsInv n s'"
proof -
  let ?f = "tagOf (tags s)"
  have fa: "?f a < n" and fb: "?f b < n" using assms(1,2,3) by (auto simp: tagsInv_def)
  have len: "length (cycles s) = n" using assms(1) by (simp add: tagsInv_def)
  have cyc: "set (cycles s ! t) = {i. i < n \<and> ?f i = t}" if "t < n" for t
    using assms(1) that by (simp add: tagsInv_def)
  have t': "tagOf (tags s') k = (if k < n \<and> ?f k = ?f b then ?f a else ?f k)" for k
    using assms(5) by (simp add: merged_def)
  have c': "cycles s' = (cycles s)[?f a := cycles s ! ?f a @ cycles s ! ?f b, ?f b := []]"
    using assms(5) by (simp add: merged_def)
  have "set (cycles s' ! t) = {i. i < n \<and> tagOf (tags s') i = t}" if t: "t < n" for t
  proof (cases "t = ?f b")
    case True
    then show ?thesis using t len assms(4) by (auto simp: c' t')
  next
    case nb: False
    show ?thesis
    proof (cases "t = ?f a")
      case True
      then show ?thesis using t len assms(4) fa fb by (auto simp: c' t' cyc)
    next
      case False
      then show ?thesis using t len nb by (auto simp: c' t' cyc)
    qed
  qed
  moreover have "\<forall>i<n. tagOf (tags s') i < n"
    using assms(1) fa by (auto simp: t' tagsInv_def)
  moreover have "length (points s') = n" "\<forall>i<n. vid (points s' ! i) = i" "length (cycles s') = n"
    using assms(1,5) by (auto simp: merged_def tagsInv_def)
  ultimately show ?thesis by (simp add: tagsInv_def)
qed

lemma knownPairs_Cons:
  "knownPairs (e # es) = (if weight e < 0 then insert (idPair e) (knownPairs es) else knownPairs es)"
  by (auto simp: knownPairs_def)

lemma knownPairs_append: "knownPairs (xs @ ys) = knownPairs xs \<union> knownPairs ys"
  by (auto simp: knownPairs_def)

lemma knownPairs_none: "\<forall>e \<in> set xs. 0 \<le> weight e \<Longrightarrow> knownPairs xs = {}"
  by (auto simp: knownPairs_def)

lemma mstPairs_snoc: "mstPairs (m @ [(u, v)]) = insert (vid u, vid v) (mstPairs m)"
  by (auto simp: mstPairs_def)

lemma merged_partition:
  assumes "\<forall>i<n. \<forall>j<n. (tagOf (tags s) i = tagOf (tags s) j) \<longleftrightarrow> (i, j) \<in> conn E"
    and "a < n" "b < n" "merged n s a b s'"
  shows "\<forall>i<n. \<forall>j<n. (tagOf (tags s') i = tagOf (tags s') j) \<longleftrightarrow> (i, j) \<in> conn (insert (a, b) E)"
  by (rule merge_partition [OF assms(1,2,3)]) (use assms(4) in \<open>simp add: merged_def\<close>)

lemma merged_card:
  assumes "a < n" "b < n" "tagOf (tags s) a \<noteq> tagOf (tags s) b" "merged n s a b s'"
  shows "card (tagOf (tags s') ` {..<n}) + 1 = card (tagOf (tags s) ` {..<n})"
  by (rule merge_card [OF assms(1,2,3)]) (use assms(4) in \<open>simp add: merged_def\<close>)

lemma merged_same:
  assumes "merged n s a b s'" "tagOf (tags s) u = tagOf (tags s) v" "u < n" "v < n"
  shows "tagOf (tags s') u = tagOf (tags s') v"
  using assms by (simp add: merged_def)

lemma merged_ends:
  assumes "merged n s a b s'" "a < n" "b < n"
  shows "tagOf (tags s') a = tagOf (tags s') b"
  using assms by (simp add: merged_def)

lemma greedy_total:
  assumes "\<forall>i<n. \<forall>j<n. (i, j) \<in> conn E" "\<forall>c \<in> set cs. vid (p1 c) < n \<and> vid (p2 c) < n"
  shows "greedy E cs = []"
  using assms(2) by (induction cs) (use assms(1) in \<open>auto simp: idPair_def\<close>)

text \<open>What holds of the edge at the back of the list while the loop runs.\<close>

lemma back_edge:
  assumes "kstatic n es0" "es0 = edges s @ dn" "edges s \<noteq> []"
  shows "es0 = butlast (edges s) @ last (edges s) # dn"
    and "vid (p1 (last (edges s))) < n" and "vid (p2 (last (edges s))) < n"
    and "\<forall>e \<in> set dn. weight e \<le> weight (last (edges s))"
    and "\<forall>e \<in> set (butlast (edges s)). weight (last (edges s)) \<le> weight e"
proof -
  show eq: "es0 = butlast (edges s) @ last (edges s) # dn"
    using assms(2,3) by simp
  have "last (edges s) \<in> set es0" using assms(2,3) by simp
  then show "vid (p1 (last (edges s))) < n" "vid (p2 (last (edges s))) < n"
    using assms(1) by (auto simp: kstatic_def)
  have srt: "sorted_wrt (\<lambda>a b. weight b \<le> weight a) (butlast (edges s) @ last (edges s) # dn)"
    using assms(1) eq by (simp add: kstatic_def)
  show "\<forall>e \<in> set dn. weight e \<le> weight (last (edges s))"
    using srt by (simp add: sorted_wrt_append)
  show "\<forall>e \<in> set (butlast (edges s)). weight (last (edges s)) \<le> weight e"
    using srt by (simp add: sorted_wrt_append)
qed

lemma filter_back:
  "xs \<noteq> [] \<Longrightarrow> rev (filter P xs) =
     (if P (last xs) then last xs # rev (filter P (butlast xs)) else rev (filter P (butlast xs)))"
  by (induction xs rule: rev_induct) auto

lemma kinv_same:
  assumes st: "kstatic n es0" and inv: "kinv n es0 dn s" and ne: "edges s \<noteq> []"
    and same: "tagOf (tags s) (vid (p1 (last (edges s)))) = tagOf (tags s) (vid (p2 (last (edges s))))"
  shows "kinv n es0 (last (edges s) # dn) (s\<lparr>edges := butlast (edges s)\<rparr>)"
proof -
  let ?dt = "last (edges s)"
  let ?a = "vid (p1 ?dt)" and ?b = "vid (p2 ?dt)"
  let ?s' = "s\<lparr>edges := butlast (edges s)\<rparr>"
  let ?K = "knownPairs dn" and ?M = "mstPairs (mst s)"
  have es0: "es0 = edges s @ dn" and tI: "tagsInv n s" and pI: "partInv n dn s"
    and cI: "countInv n s" and phI: "phaseInv dn s" and kI: "knownInv n dn s"
    and gI: "greedyInv es0 s"
    using inv unfolding kinv_def by blast+
  note be = back_edge [OF st es0 ne]
  have ab: "(?a, ?b) \<in> conn (?K \<union> ?M)"
    using pI be(2,3) same by (simp add: partInv_def)
  have 1: "es0 = edges ?s' @ ?dt # dn" using be(1) by simp
  have 2: "tagsInv n ?s'" using tI by (simp add: tagsInv_def)
  have 3: "partInv n (?dt # dn) ?s'"
  proof (cases "weight ?dt < 0")
    case True
    have "conn (insert (?a, ?b) (?K \<union> ?M)) = conn (?K \<union> ?M)" by (rule conn_absorb [OF ab])
    then show ?thesis using pI True by (simp add: partInv_def knownPairs_Cons idPair_def)
  next
    case False
    then show ?thesis using pI by (simp add: partInv_def knownPairs_Cons)
  qed
  have 4: "countInv n ?s'" using cI by (simp add: countInv_def)
  have 5: "phaseInv (?dt # dn) ?s'" using phI same by (auto simp: phaseInv_def)
  have 6: "knownInv n (?dt # dn) ?s'"
  proof (cases "weight ?dt < 0")
    case True
    have "\<not> ratsnestLines s"
    proof
      assume "ratsnestLines s"
      then obtain e where "e \<in> set dn" "0 \<le> weight e" using phI by (auto simp: phaseInv_def)
      with be(4) True show False by fastforce
    qed
    then have "?M = {}" using cI by (simp add: countInv_def mstPairs_def)
    with ab have "conn (insert (?a, ?b) ?K) = conn ?K" by (simp add: conn_absorb)
    then have "components n (insert (?a, ?b) ?K) = components n ?K" by (simp add: components_def)
    then show ?thesis using kI True by (simp add: knownInv_def knownPairs_Cons idPair_def)
  next
    case False
    then show ?thesis using kI by (simp add: knownInv_def knownPairs_Cons)
  qed
  have 7: "greedyInv es0 ?s'"
  proof (cases "0 \<le> weight ?dt")
    case True
    have "?K \<union> ?M \<subseteq> knownPairs es0 \<union> ?M" by (auto simp: es0 knownPairs_append)
    then have "conn (?K \<union> ?M) \<subseteq> conn (knownPairs es0 \<union> ?M)" by (rule conn_mono)
    with ab have "idPair ?dt \<in> conn (knownPairs es0 \<union> ?M)" by (auto simp: idPair_def)
    then show ?thesis using gI True ne by (simp add: greedyInv_def filter_back)
  next
    case False
    then show ?thesis using gI ne by (simp add: greedyInv_def filter_back)
  qed
  from 1 2 3 4 5 6 7 show ?thesis unfolding kinv_def by blast
qed

lemma kinv_emit:
  assumes st: "kstatic n es0" and inv: "kinv n es0 dn s" and lc: "loopCond s"
    and diff: "tagOf (tags s) (vid (p1 (last (edges s)))) \<noteq> tagOf (tags s) (vid (p2 (last (edges s))))"
    and rn: "ratsnestLines s \<or> 0 \<le> weight (last (edges s))"
  shows "\<exists>s'. loopBody s = Some s' \<and> kinv n es0 (last (edges s) # dn) s' \<and>
           mst s' = mst s @ [(p1 (last (edges s)), p2 (last (edges s)))]"
proof -
  let ?dt = "last (edges s)"
  let ?a = "vid (p1 ?dt)" and ?b = "vid (p2 ?dt)"
  let ?f = "tagOf (tags s)"
  let ?K = "knownPairs dn" and ?M = "mstPairs (mst s)"
  have ne: "edges s \<noteq> []" and lt: "mstSize s < mstExpectedSize s"
    using lc by (simp_all add: loopCond_def)
  have es0: "es0 = edges s @ dn" and tI: "tagsInv n s" and pI: "partInv n dn s"
    and cI: "countInv n s" and phI: "phaseInv dn s" and kI: "knownInv n dn s"
    and gI: "greedyInv es0 s"
    using inv unfolding kinv_def by blast+
  note be = back_edge [OF st es0 ne]
  have w: "0 \<le> weight ?dt"
  proof (cases "ratsnestLines s")
    case True
    then obtain e where "e \<in> set dn" "0 \<le> weight e" using phI by (auto simp: phaseInv_def)
    with be(4) show ?thesis by fastforce
  next
    case False
    with rn show ?thesis by simp
  qed
  define s' where "s' = s\<lparr>tags := retag (points s) (cycles s ! ?f ?b) (?f ?a) (tags s),
              mst := mst s @ [(p1 ?dt, p2 ?dt)],
              mstSize := (mstSize s + 1) mod 2 ^ 32,
              ratsnestLines := True,
              cycles := (cycles s)[?f ?a := cycles s ! ?f ?a @ cycles s ! ?f ?b, ?f ?b := []],
              edges := butlast (edges s)\<rparr>"
  have body: "loopBody s = Some s'"
    unfolding s'_def by (rule step_emit [OF tI be(2,3) diff rn])
  have fb: "?f ?b < n" using tI be(3) by (simp add: tagsInv_def)
  have mg: "merged n s ?a ?b s'"
    unfolding merged_def s'_def by (simp add: retag_cycles [OF tI fb])
  have f1: "mst s' = mst s @ [(p1 ?dt, p2 ?dt)]" and f2: "mstSize s' = (mstSize s + 1) mod 2 ^ 32"
    and f3: "mstExpectedSize s' = mstExpectedSize s" and f4: "ratsnestLines s'"
    and f5: "edges s' = butlast (edges s)"
    by (simp_all add: s'_def)
  have kall: "knownPairs es0 = ?K"
  proof -
    have "\<forall>e \<in> set (edges s). 0 \<le> weight e"
    proof
      fix e assume "e \<in> set (edges s)"
      then have "e \<in> set (butlast (edges s)) \<or> e = ?dt"
        using ne by (metis append_butlast_last_id in_set_conv_decomp_first rotate1.simps(2) set_ConsD set_rotate1)
      with be(5) w show "0 \<le> weight e" by fastforce
    qed
    then show ?thesis by (simp add: es0 knownPairs_append knownPairs_none)
  qed
  have 1: "es0 = edges s' @ ?dt # dn" using be(1) f5 by simp
  have 2: "tagsInv n s'" by (rule merged_tagsInv [OF tI be(2,3) diff mg])
  have 3: "partInv n (?dt # dn) s'"
  proof -
    have "\<forall>i<n. \<forall>j<n. (tagOf (tags s') i = tagOf (tags s') j) \<longleftrightarrow> (i, j) \<in> conn (insert (?a, ?b) (?K \<union> ?M))"
      by (rule merged_partition [OF _ be(2,3) mg]) (use pI in \<open>simp add: partInv_def\<close>)
    then show ?thesis using w by (simp add: partInv_def knownPairs_Cons f1 mstPairs_snoc)
  qed
  have sz: "(mstSize s + 1) mod 2 ^ 32 = mstSize s + 1"
    using lt cI by (simp add: countInv_def)
  have 4: "countInv n s'"
    using cI lt merged_card [OF be(2,3) diff mg] by (simp add: countInv_def f1 f2 f3 f4 sz)
  have 5: "phaseInv (?dt # dn) s'"
  proof -
    have "\<forall>e \<in> set dn. tagOf (tags s') (vid (p1 e)) = tagOf (tags s') (vid (p2 e))"
    proof
      fix e assume e: "e \<in> set dn"
      then have "e \<in> set es0" by (simp add: es0)
      then have "vid (p1 e) < n" "vid (p2 e) < n" using st by (auto simp: kstatic_def)
      moreover have "?f (vid (p1 e)) = ?f (vid (p2 e))" using phI e by (simp add: phaseInv_def)
      ultimately show "tagOf (tags s') (vid (p1 e)) = tagOf (tags s') (vid (p2 e))"
        using merged_same [OF mg] by blast
    qed
    moreover have "tagOf (tags s') ?a = tagOf (tags s') ?b" by (rule merged_ends [OF mg be(2,3)])
    moreover have "\<forall>w \<in> set (mst s'). \<exists>e \<in> set (?dt # dn). 0 \<le> weight e \<and> w = (p1 e, p2 e)"
      using phI w by (auto simp: f1 phaseInv_def)
    ultimately show ?thesis using w by (auto simp: phaseInv_def)
  qed
  have 6: "knownInv n (?dt # dn) s'"
    using kI w by (simp add: knownInv_def knownPairs_Cons f3)
  have 7: "greedyInv es0 s'"
  proof -
    have "(?a, ?b) \<notin> conn (?K \<union> ?M)" using pI be(2,3) diff by (simp add: partInv_def)
    then have "idPair ?dt \<notin> conn (knownPairs es0 \<union> ?M)" by (simp add: kall idPair_def)
    then show ?thesis using gI w ne
      by (simp add: greedyInv_def filter_back f1 f5 mstPairs_snoc idPair_def)
  qed
  from 1 2 3 4 5 6 7 have "kinv n es0 (?dt # dn) s'" unfolding kinv_def by blast
  with body f1 show ?thesis by blast
qed

lemma kinv_known:
  assumes st: "kstatic n es0" and inv: "kinv n es0 dn s" and lc: "loopCond s"
    and diff: "tagOf (tags s) (vid (p1 (last (edges s)))) \<noteq> tagOf (tags s) (vid (p2 (last (edges s))))"
    and nrn: "\<not> ratsnestLines s" and w: "weight (last (edges s)) < 0"
  shows "\<exists>s'. loopBody s = Some s' \<and> kinv n es0 (last (edges s) # dn) s' \<and> mst s' = mst s"
proof -
  let ?dt = "last (edges s)"
  let ?a = "vid (p1 ?dt)" and ?b = "vid (p2 ?dt)"
  let ?f = "tagOf (tags s)"
  let ?K = "knownPairs dn" and ?M = "mstPairs (mst s)"
  have ne: "edges s \<noteq> []" and lt: "mstSize s < mstExpectedSize s"
    using lc by (simp_all add: loopCond_def)
  have es0: "es0 = edges s @ dn" and tI: "tagsInv n s" and pI: "partInv n dn s"
    and cI: "countInv n s" and phI: "phaseInv dn s" and kI: "knownInv n dn s"
    and gI: "greedyInv es0 s"
    using inv unfolding kinv_def by blast+
  note be = back_edge [OF st es0 ne]
  have m0: "mst s = []" and z: "mstSize s = 0" using cI nrn by (auto simp: countInv_def)
  define s' where "s' = s\<lparr>tags := retag (points s) (cycles s ! ?f ?b) (?f ?a) (tags s),
              points := setTags (cycles s ! ?f ?b) (?f ?a) (points s),
              mstExpectedSize := (mstExpectedSize s + 2 ^ 32 - 1) mod 2 ^ 32,
              ratsnestLines := False,
              cycles := (cycles s)[?f ?a := cycles s ! ?f ?a @ cycles s ! ?f ?b, ?f ?b := []],
              edges := butlast (edges s)\<rparr>"
  have body: "loopBody s = Some s'"
    unfolding s'_def by (rule step_known [OF tI be(2,3) diff nrn w])
  have fb: "?f ?b < n" using tI be(3) by (simp add: tagsInv_def)
  have mg: "merged n s ?a ?b s'"
    unfolding merged_def s'_def by (simp add: retag_cycles [OF tI fb] setTags_length setTags_nth)
  have f1: "mst s' = mst s" and f2: "mstSize s' = mstSize s"
    and f3': "mstExpectedSize s' = (mstExpectedSize s + 2 ^ 32 - 1) mod 2 ^ 32"
    and f4: "\<not> ratsnestLines s'" and f5: "edges s' = butlast (edges s)"
    by (simp_all add: s'_def)
  have ex: "(mstExpectedSize s + 2 ^ 32 - 1) mod 2 ^ 32 = mstExpectedSize s - 1"
  proof -
    have "0 < mstExpectedSize s" "mstExpectedSize s < 2 ^ 32" using lt cI by (auto simp: countInv_def)
    then have "mstExpectedSize s + 2 ^ 32 - 1 = (mstExpectedSize s - 1) + 1 * 2 ^ 32" by simp
    also have "\<dots> mod 2 ^ 32 = (mstExpectedSize s - 1) mod 2 ^ 32" by (rule mod_mult_self1)
    also have "\<dots> = mstExpectedSize s - 1" using \<open>mstExpectedSize s < 2 ^ 32\<close> by simp
    finally show ?thesis .
  qed
  have f3: "mstExpectedSize s' = mstExpectedSize s - 1" by (simp only: f3' ex)
  have 1: "es0 = edges s' @ ?dt # dn" using be(1) f5 by simp
  have 2: "tagsInv n s'" by (rule merged_tagsInv [OF tI be(2,3) diff mg])
  have p': "\<forall>i<n. \<forall>j<n. (tagOf (tags s') i = tagOf (tags s') j) \<longleftrightarrow> (i, j) \<in> conn (insert (?a, ?b) ?K)"
    by (rule merged_partition [OF _ be(2,3) mg]) (use pI m0 in \<open>simp add: partInv_def mstPairs_def\<close>)
  have 3: "partInv n (?dt # dn) s'"
    using p' w by (simp add: partInv_def knownPairs_Cons f1 m0 mstPairs_def idPair_def)
  have cd: "card (tagOf (tags s') ` {..<n}) = mstExpectedSize s"
    using cI z merged_card [OF be(2,3) diff mg] by (simp add: countInv_def)
  have 4: "countInv n s'"
    using cI lt cd by (auto simp add: countInv_def f1 f2 f3 f4 m0 z)
  have 5: "phaseInv (?dt # dn) s'"
  proof -
    have "\<forall>e \<in> set dn. tagOf (tags s') (vid (p1 e)) = tagOf (tags s') (vid (p2 e))"
    proof
      fix e assume e: "e \<in> set dn"
      then have "e \<in> set es0" by (simp add: es0)
      then have "vid (p1 e) < n" "vid (p2 e) < n" using st by (auto simp: kstatic_def)
      moreover have "?f (vid (p1 e)) = ?f (vid (p2 e))" using phI e by (simp add: phaseInv_def)
      ultimately show "tagOf (tags s') (vid (p1 e)) = tagOf (tags s') (vid (p2 e))"
        using merged_same [OF mg] by blast
    qed
    moreover have "tagOf (tags s') ?a = tagOf (tags s') ?b" by (rule merged_ends [OF mg be(2,3)])
    ultimately show ?thesis using f4 by (simp add: phaseInv_def f1 m0)
  qed
  have 6: "knownInv n (?dt # dn) s'"
  proof -
    have "card (components n (insert (?a, ?b) ?K)) = card (tagOf (tags s') ` {..<n})"
      by (rule components_by_tags [OF p'])
    then show ?thesis using w lt cd by (simp add: knownInv_def knownPairs_Cons idPair_def f3)
  qed
  have 7: "greedyInv es0 s'"
    using gI w ne by (simp add: greedyInv_def filter_back f1 f5)
  from 1 2 3 4 5 6 7 have "kinv n es0 (?dt # dn) s'" unfolding kinv_def by blast
  with body f1 show ?thesis by blast
qed

lemma kinv_step:
  assumes "kstatic n es0" "kinv n es0 dn s" "loopCond s"
  shows "\<exists>s'. loopBody s = Some s' \<and> kinv n es0 (last (edges s) # dn) s'"
proof (cases "tagOf (tags s) (vid (p1 (last (edges s)))) = tagOf (tags s) (vid (p2 (last (edges s))))")
  case True
  have "edges s \<noteq> []" using assms(3) by (simp add: loopCond_def)
  from kinv_same [OF assms(1,2) this True] step_same [OF True] show ?thesis by blast
next
  case False
  show ?thesis
  proof (cases "ratsnestLines s \<or> 0 \<le> weight (last (edges s))")
    case True
    from kinv_emit [OF assms False True] show ?thesis by blast
  next
    case False
    then have "\<not> ratsnestLines s" "weight (last (edges s)) < 0" by auto
    from kinv_known [OF assms \<open>tagOf (tags s) (vid (p1 (last (edges s)))) \<noteq> _\<close> this] show ?thesis by blast
  qed
qed

lemma kinv_loop:
  assumes "kstatic n es0"
  shows "kinv n es0 dn s \<Longrightarrow> \<exists>s' dn'. kruskalLoop s = Some s' \<and> kinv n es0 dn' s' \<and> \<not> loopCond s'"
proof (induction s arbitrary: dn rule: kruskalLoop.induct)
  case (1 s)
  show ?case
  proof (cases "loopCond s")
    case True
    from kinv_step [OF assms "1.prems" True] obtain s1 where
      s1: "loopBody s = Some s1" "kinv n es0 (last (edges s) # dn) s1" by blast
    from "1.IH" [OF True s1(1) s1(2)] obtain s' dn' where
      "kruskalLoop s1 = Some s'" "kinv n es0 dn' s'" "\<not> loopCond s'" by blast
    then show ?thesis using True s1(1) by (subst kruskalLoop.simps) auto
  next
    case False
    then show ?thesis using "1.prems" by (subst kruskalLoop.simps) auto
  qed
qed

lemma card_image_one:
  assumes "card (f ` {..<n::nat}) = 1" "i < n" "j < n"
  shows "f i = f j"
proof -
  from assms(1) obtain t where "f ` {..<n} = {t}" by (auto simp: card_1_singleton_iff)
  moreover have "f i \<in> f ` {..<n}" "f j \<in> f ` {..<n}" using assms(2,3) by auto
  ultimately show ?thesis by simp
qed

lemma image_one_card:
  assumes "0 < (n::nat)" "\<forall>i<n. \<forall>j<n. f i = f j"
  shows "card (f ` {..<n}) = 1"
proof -
  have "f i = f 0" if "i < n" for i using assms that by blast
  then have "f ` {..<n} \<subseteq> {f 0}" by blast
  moreover have "f 0 \<in> f ` {..<n}" using assms(1) by blast
  ultimately have "f ` {..<n} = {f 0}" by blast
  then show ?thesis by simp
qed

text \<open>When the loop has stopped with edges left, all points carry one tag.\<close>

lemma final_full:
  assumes inv: "kinv n es0 dn s" and stop: "\<not> loopCond s" and ne: "edges s \<noteq> []"
    and i: "i < n" and j: "j < n"
  shows "tagOf (tags s) i = tagOf (tags s) j"
proof -
  have cI: "countInv n s" using inv unfolding kinv_def by blast
  from stop ne have "mstExpectedSize s \<le> mstSize s" by (simp add: loopCond_def)
  with cI have "card (tagOf (tags s) ` {..<n}) = 1" by (simp add: countInv_def)
  then show ?thesis using i j by (rule card_image_one)
qed

lemma final_greedy:
  assumes st: "kstatic n es0" and inv: "kinv n es0 dn s" and stop: "\<not> loopCond s"
  shows "mst s = greedy (knownPairs es0) (rev (filter (\<lambda>e. 0 \<le> weight e) es0))"
proof -
  have es0: "es0 = edges s @ dn" and pI: "partInv n dn s" and gI: "greedyInv es0 s"
    using inv unfolding kinv_def by blast+
  let ?E = "knownPairs es0 \<union> mstPairs (mst s)"
  have "greedy ?E (rev (filter (\<lambda>e. 0 \<le> weight e) (edges s))) = []"
  proof (cases "edges s = []")
    case True
    then show ?thesis by simp
  next
    case False
    have sub: "conn (knownPairs dn \<union> mstPairs (mst s)) \<subseteq> conn ?E"
      by (rule conn_mono) (auto simp: es0 knownPairs_append)
    have "\<forall>i<n. \<forall>j<n. (i, j) \<in> conn ?E"
    proof (intro allI impI)
      fix i j assume ij: "i < n" "j < n"
      have "tagOf (tags s) i = tagOf (tags s) j" by (rule final_full [OF inv stop False ij])
      with pI ij have "(i, j) \<in> conn (knownPairs dn \<union> mstPairs (mst s))"
        unfolding partInv_def by blast
      with sub show "(i, j) \<in> conn ?E" by blast
    qed
    moreover have "\<forall>c \<in> set (rev (filter (\<lambda>e. 0 \<le> weight e) (edges s))). vid (p1 c) < n \<and> vid (p2 c) < n"
      using st by (auto simp: kstatic_def es0)
    ultimately show ?thesis by (rule greedy_total)
  qed
  with gI show ?thesis by (simp add: greedyInv_def)
qed

lemma final_candidates:
  assumes inv: "kinv n es0 dn s"
  shows "\<forall>w \<in> set (mst s). \<exists>e \<in> set es0. 0 \<le> weight e \<and> w = (p1 e, p2 e)"
proof -
  have es0: "es0 = edges s @ dn" and phI: "phaseInv dn s"
    using inv unfolding kinv_def by blast+
  show ?thesis using phI by (auto simp: phaseInv_def es0)
qed

lemma final_connected:
  assumes st: "kstatic n es0" and inv: "kinv n es0 dn s" and stop: "\<not> loopCond s"
    and all: "allConnected n (idPair ` set es0)"
  shows "length (mst s) + 1 = card (components n (knownPairs es0))"
    and "allConnected n (knownPairs es0 \<union> mstPairs (mst s))"
proof -
  let ?f = "tagOf (tags s)"
  have es0: "es0 = edges s @ dn" and pI: "partInv n dn s" and cI: "countInv n s"
    and phI: "phaseInv dn s" and kI: "knownInv n dn s"
    using inv unfolding kinv_def by blast+
  have n0: "0 < n" using st by (simp add: kstatic_def)
  have same: "?f i = ?f j" if "i < n" "j < n" for i j
  proof (cases "edges s = []")
    case True
    have "(i, j) \<in> conn (idPair ` set es0)" using all that by (simp add: allConnected_def)
    then have "(i, j) \<in> {(x, y). ?f x = ?f y}"
    proof (rule conn_least)
      show "\<And>a b. (a, b) \<in> idPair ` set es0 \<Longrightarrow> (a, b) \<in> {(x, y). ?f x = ?f y}"
        using phI True by (auto simp: es0 phaseInv_def idPair_def)
    qed auto
    then show ?thesis by simp
  next
    case False
    from final_full [OF inv stop False that] show ?thesis .
  qed
  have sub: "conn (knownPairs dn \<union> mstPairs (mst s)) \<subseteq> conn (knownPairs es0 \<union> mstPairs (mst s))"
    by (rule conn_mono) (auto simp: es0 knownPairs_append)
  show "allConnected n (knownPairs es0 \<union> mstPairs (mst s))"
    unfolding allConnected_def
  proof (intro allI impI)
    fix i j assume ij: "i < n" "j < n"
    have "?f i = ?f j" by (rule same [OF ij])
    with pI ij have "(i, j) \<in> conn (knownPairs dn \<union> mstPairs (mst s))"
      unfolding partInv_def by blast
    with sub show "(i, j) \<in> conn (knownPairs es0 \<union> mstPairs (mst s))" by blast
  qed
  have "\<forall>i<n. \<forall>j<n. ?f i = ?f j" using same by blast
  then have "card (?f ` {..<n}) = 1" by (rule image_one_card [OF n0])
  with cI have sz: "mstSize s = mstExpectedSize s" "length (mst s) = mstSize s"
    by (auto simp: countInv_def)
  have "card (components n (knownPairs es0)) = mstExpectedSize s + 1"
  proof (cases "\<forall>e \<in> set (edges s). 0 \<le> weight e")
    case True
    then have "knownPairs es0 = knownPairs dn" by (simp add: es0 knownPairs_append knownPairs_none)
    with kI show ?thesis by (simp add: knownInv_def)
  next
    case False
    then obtain e where e: "e \<in> set (edges s)" "weight e < 0" by fastforce
    have srt: "\<forall>x \<in> set (edges s). \<forall>d \<in> set dn. weight d \<le> weight x"
      using st by (simp add: kstatic_def es0 sorted_wrt_append)
    have "\<not> ratsnestLines s"
    proof
      assume "ratsnestLines s"
      then obtain d where "d \<in> set dn" "0 \<le> weight d" using phI by (auto simp: phaseInv_def)
      with srt e show False by fastforce
    qed
    with cI sz have z: "mstExpectedSize s = 0" by (simp add: countInv_def)
    with kI have "card (components n (knownPairs dn)) = 1" by (simp add: knownInv_def)
    then have "\<forall>i<n. \<forall>j<n. (i, j) \<in> conn (knownPairs dn)"
      using components_card_one by blast
    moreover have "conn (knownPairs dn) \<subseteq> conn (knownPairs es0)"
      by (rule conn_mono) (auto simp: es0 knownPairs_append)
    ultimately have "\<forall>i<n. \<forall>j<n. (i, j) \<in> conn (knownPairs es0)" by blast
    from components_all_connected [OF n0 this] z show ?thesis by simp
  qed
  with sz show "length (mst s) + 1 = card (components n (knownPairs es0))" by simp
qed

lemma initTags_props:
  "initTags pts k tg = (pts', tg') \<Longrightarrow> \<forall>i < length pts. vid (pts ! i) = k + i \<Longrightarrow>
   map geom pts' = map geom pts \<and>
   (\<forall>j. tagOf tg' j = (if k \<le> j \<and> j < k + length pts then j else tagOf tg j))"
proof (induction pts arbitrary: k tg pts' tg')
  case Nil
  then show ?case by simp
next
  case (Cons p ps)
  obtain r t where rt: "initTags ps (k + 1) (tg(vid p \<mapsto> k)) = (r, t)" by fastforce
  with Cons.prems(1) have eq: "pts' = p\<lparr>vtag := k\<rparr> # r" "tg' = t" by auto
  have ids: "\<forall>i < length ps. vid (ps ! i) = (k + 1) + i"
    using Cons.prems(2) by fastforce
  have pk: "vid p = k" using Cons.prems(2) by fastforce
  from Cons.IH [OF rt ids] have
    g: "map geom r = map geom ps" and
    tg: "\<And>j. tagOf t j = (if k + 1 \<le> j \<and> j < k + 1 + length ps then j else tagOf (tg(vid p \<mapsto> k)) j)"
    by auto
  have "map geom pts' = map geom (p # ps)" using g by (simp add: eq geom_def)
  moreover have "tagOf tg' j = (if k \<le> j \<and> j < k + length (p # ps) then j else tagOf tg j)" for j
    unfolding eq tg using pk by (auto simp: tagOf_def)
  ultimately show ?case by blast
qed

lemma setTags_geom: "map geom (setTags grp t pts) = map geom pts"
  unfolding setTags_def
proof (induction grp arbitrary: pts)
  case Nil
  show ?case by simp
next
  case (Cons j grp)
  have "map geom (pts[j := (pts ! j)\<lparr>vtag := t\<rparr>]) = map geom pts"
  proof (cases "j < length pts")
    case True
    then show ?thesis by (simp add: map_update geom_def list_update_same_conv)
  next
    case False
    then show ?thesis by (simp add: list_update_beyond)
  qed
  with Cons.IH [of "pts[j := (pts ! j)\<lparr>vtag := t\<rparr>]"] show ?case by simp
qed

lemma loopBody_geom: "loopBody s = Some s' \<Longrightarrow> map geom (points s') = map geom (points s)"
  by (auto simp: loopBody_def Let_def setTags_geom split: if_splits)

lemma kruskalLoop_geom: "kruskalLoop s = Some s' \<Longrightarrow> map geom (points s') = map geom (points s)"
proof (induction s rule: kruskalLoop.induct)
  case (1 s)
  show ?case
  proof (cases "loopCond s")
    case True
    with "1.prems" obtain s1 where s1: "loopBody s = Some s1" "kruskalLoop s1 = Some s'"
      by (subst (asm) kruskalLoop.simps) (auto split: option.splits)
    from "1.IH" [OF True s1] loopBody_geom [OF s1(1)] show ?thesis by simp
  next
    case False
    with "1.prems" show ?thesis by (subst (asm) kruskalLoop.simps) simp
  qed
qed

lemma geom_nth: "map geom xs = map geom ys \<Longrightarrow> i < length ys \<Longrightarrow>
  vid (xs ! i) = vid (ys ! i) \<and> vx (xs ! i) = vx (ys ! i) \<and> vy (xs ! i) = vy (ys ! i)"
proof -
  assume a: "map geom xs = map geom ys" "i < length ys"
  then have "length xs = length ys" using map_eq_imp_length_eq by blast
  with a have "geom (xs ! i) = geom (ys ! i)" by (metis nth_map)
  then show ?thesis by (simp add: geom_def)
qed

lemma std_sort_set: "std_sort cmp srt \<Longrightarrow> set (srt xs) = set xs"
  unfolding std_sort_def by (metis set_mset_mset)

lemma kruskalInit_kinv:
  assumes pr: "prepared b" and n0: "0 < length (mPoints b)"
    and srt: "std_sort (\<lambda>a b. weight a > weight b) (sortEdges L)"
  shows "kstatic (length (mPoints b)) (sortEdges L (mEdges b))"
    and "kinv (length (mPoints b)) (sortEdges L (mEdges b)) [] (kruskalInit L b)"
proof -
  let ?n = "length (mPoints b)" and ?es0 = "sortEdges L (mEdges b)"
  let ?s = "kruskalInit L b"
  have n31: "?n < 2 ^ 31" and ids: "\<forall>i < ?n. vid (mPoints b ! i) = 0 + i"
    and ends: "\<forall>e \<in> set (mEdges b). vid (p1 e) < ?n \<and> vid (p2 e) < ?n"
    using pr by (auto simp: prepared_def copyOf_def)
  have n32: "?n < 2 ^ 32" using n31 by simp
  have md: "?n mod 2 ^ 32 = ?n" using n32 by simp
  have ex: "(?n + 2 ^ 32 - 1) mod 2 ^ 32 = ?n - 1"
  proof -
    have "?n + 2 ^ 32 - 1 = (?n - 1) + 1 * 2 ^ 32" using n0 by simp
    also have "\<dots> mod 2 ^ 32 = (?n - 1) mod 2 ^ 32" by (rule mod_mult_self1)
    also have "\<dots> = ?n - 1" using n32 by simp
    finally show ?thesis .
  qed
  obtain pts tg where it: "initTags (mPoints b) 0 Map.empty = (pts, tg)" by fastforce
  from initTags_props [OF it ids] have
    g: "map geom pts = map geom (mPoints b)" and
    tg: "\<And>j. tagOf tg j = (if j < ?n then j else 0)"
    by (auto simp: tagOf_def)
  have f: "points ?s = pts" "edges ?s = ?es0" "tags ?s = tg"
    "cycles ?s = map (\<lambda>i. [i]) [0..<?n]" "mstSize ?s = 0" "mstExpectedSize ?s = ?n - 1"
    "\<not> ratsnestLines ?s" "mst ?s = []"
    unfolding kruskalInit_def Let_def it using md ex by simp_all
  have "sorted_wrt (\<lambda>a b. weight b \<le> weight a) ?es0"
  proof -
    have "sorted_wrt (\<lambda>a b. \<not> weight b > weight a) ?es0" using srt by (simp add: std_sort_def)
    then show ?thesis by (simp add: not_less)
  qed
  moreover have "set ?es0 = set (mEdges b)" by (rule std_sort_set [OF srt])
  ultimately show "kstatic ?n ?es0" using n0 n32 ends by (simp add: kstatic_def)
  have len: "length pts = ?n" using g map_eq_imp_length_eq by fastforce
  have 2: "tagsInv ?n ?s"
    unfolding tagsInv_def f using len geom_nth [OF g] ids by (auto simp: tg)
  have 3: "partInv ?n [] ?s"
    unfolding partInv_def f by (auto simp: tg knownPairs_def mstPairs_def conn_def)
  have img: "tagOf tg ` {..<?n} = {..<?n}" by (auto simp: tg)
  have 4: "countInv ?n ?s"
    unfolding countInv_def f img using n0 n32 by simp
  have 5: "phaseInv [] ?s" by (simp add: phaseInv_def f)
  have 6: "knownInv ?n [] ?s"
    unfolding knownInv_def f using n0 by (simp add: knownPairs_def components_empty)
  have 7: "greedyInv ?es0 ?s" unfolding greedyInv_def f by (simp add: mstPairs_def)
  from f(2) 2 3 4 5 6 7 show "kinv ?n ?es0 [] ?s" unfolding kinv_def by simp
qed

section \<open>Running the builder\<close>

lemma std_sort_sort_key:
  assumes "\<And>a b. cmp b a \<longleftrightarrow> \<not> f a \<le> (f b :: int)"
  shows "std_sort cmp (sort_key f)"
proof -
  have "sorted_wrt (\<lambda>a b. f a \<le> f b) (sort_key f xs)" for xs
    using sorted_sort_key [of f xs] by (simp add: sorted_map)
  then show ?thesis by (simp add: std_sort_def assms)
qed

text \<open>Numbers below \<open>2 ^ 53\<close> are doubles: the conversion leaves them as they are.\<close>

lemma bits_le: "0 \<le> n \<Longrightarrow> n < 2 ^ k \<Longrightarrow> bits n \<le> k"
proof (induction k arbitrary: n)
  case 0
  then have "n = 0" by simp
  then show ?case by (simp add: bits.simps)
next
  case (Suc k)
  have "n div 2 < 2 ^ k" "0 \<le> n div 2" using Suc.prems by auto
  from Suc.IH [OF this(2,1)] show ?case by (subst bits.simps) simp
qed

lemma toQreal_small: "\<bar>n\<bar> < 9007199254740992 \<Longrightarrow> toQreal n = n"
proof -
  assume a: "\<bar>n\<bar> < 9007199254740992"
  have "bits \<bar>n\<bar> \<le> 53" by (rule bits_le) (use a in simp_all)
  then have "bits \<bar>n\<bar> - 53 = 0" by simp
  then show ?thesis by (simp add: toQreal_def Let_def mult_sgn_abs)
qed

lemma toQreal_nonneg: "0 \<le> n \<Longrightarrow> 0 \<le> toQreal n"
  by (auto simp: toQreal_def Let_def sgn_if pos_imp_zdiv_nonneg_iff)

lemma qrealDist2_nonneg: "0 \<le> qrealDist2 a b"
  by (simp add: qrealDist2_def Let_def toQreal_nonneg)

lemma stableEnv_ok: "env_ok stableEnv"
proof -
  have "std_sort (\<lambda>a b. weight a > weight b) (sort_key (\<lambda>e. - weight e))"
    by (rule std_sort_sort_key) auto
  moreover have "std_sort (\<lambda>a b. vx a < vx b) (sort_key vx)"
    by (rule std_sort_sort_key) auto
  moreover have "0 \<le> qrealDist2 a b" for a b by (rule qrealDist2_nonneg)
  ultimately show ?thesis by (simp add: env_ok_def stableEnv_def)
qed

lemma copyOf_nth: "\<forall>i < length pts. vid (pts ! i) = i \<Longrightarrow> p \<in> set pts \<Longrightarrow> copyOf pts p"
  by (auto simp: copyOf_def in_set_conv_nth)

lemma candidates_ok:
  assumes ids: "\<forall>i < length pts. vid (pts ! i) = i"
    and srt: "std_sort (\<lambda>a b. vx a < vx b) (sortPoints L)"
    and tri: "triangulation_ok L pts"
  shows "\<forall>e \<in> set (candidates L pts). copyOf pts (p1 e) \<and> copyOf pts (p2 e)"
proof -
  have two: "length pts = 2 \<Longrightarrow> copyOf pts (pts ! 0) \<and> copyOf pts (pts ! 1)"
    using ids by (simp add: copyOf_nth)
  have path: "\<forall>e \<in> set (pathEdges (sortPoints L pts)). copyOf pts (p1 e) \<and> copyOf pts (p2 e)"
  proof
    fix e assume "e \<in> set (pathEdges (sortPoints L pts))"
    then obtain i where i: "1 \<le> i" "i < length (sortPoints L pts)"
      "e = \<lparr>p1 = sortPoints L pts ! (i - 1), p2 = sortPoints L pts ! i, weight = - 1\<rparr>"
      by (auto simp: pathEdges_def)
    then have "p1 e \<in> set (sortPoints L pts)" "p2 e \<in> set (sortPoints L pts)" by simp_all
    then have "p1 e \<in> set pts" "p2 e \<in> set pts" by (simp_all add: std_sort_set [OF srt])
    then show "copyOf pts (p1 e) \<and> copyOf pts (p2 e)" using ids by (simp add: copyOf_nth)
  qed
  show ?thesis using two path tri by (auto simp: candidates_def triangulation_ok_def)
qed

lemma withCandidates_edges:
  "length (mEdges b) < 2 ^ 32 \<Longrightarrow>
   withCandidates L b = b\<lparr>mEdges := mEdges b @ map (setWeight L) (candidates L (mPoints b))\<rparr>"
  by (simp add: withCandidates_def Let_def)

lemma withCandidates_prepared:
  assumes fr: "fresh b" and ok: "env_ok L" and tri: "triangulation_ok L (mPoints b)"
  shows "prepared (withCandidates L b)"
proof -
  have pr: "prepared b" and len: "length (mEdges b) < 2 ^ 32" using fr by (simp_all add: fresh_def)
  have ids: "\<forall>i < length (mPoints b). vid (mPoints b ! i) = i" using pr by (simp add: prepared_def)
  have srt: "std_sort (\<lambda>a b. vx a < vx b) (sortPoints L)" using ok by (simp add: env_ok_def)
  note c = candidates_ok [OF ids srt tri]
  show ?thesis
    unfolding withCandidates_edges [OF len] using pr c by (auto simp: prepared_def setWeight_def)
qed

lemma kruskal_run:
  assumes "prepared b" "0 < length (mPoints b)" "std_sort (\<lambda>a b. weight a > weight b) (sortEdges L)"
  shows "\<exists>s dn. kruskalLoop (kruskalInit L b) = Some s \<and>
           kinv (length (mPoints b)) (sortEdges L (mEdges b)) dn s \<and> \<not> loopCond s"
  using kinv_loop [OF kruskalInit_kinv [OF assms]] by blast

lemma prepared_no_points:
  assumes "prepared b" "length (mPoints b) = 0" "std_sort (\<lambda>a b. weight a > weight b) (sortEdges L)"
  shows "edges (kruskalInit L b) = []" and "mst (kruskalInit L b) = []"
    and "points (kruskalInit L b) = []"
proof -
  have "mEdges b = []"
  proof (cases "mEdges b")
    case (Cons e es)
    then have "copyOf (mPoints b) (p1 e)" using assms(1) by (simp add: prepared_def)
    then show ?thesis using assms(2) by (simp add: copyOf_def)
  qed simp
  moreover have "mset (sortEdges L []) = {#}" using assms(3) by (simp add: std_sort_def)
  ultimately show "edges (kruskalInit L b) = []" by (simp add: kruskalInit_def Let_def split: prod.splits)
  show "mst (kruskalInit L b) = []" by (simp add: kruskalInit_def Let_def split: prod.splits)
  show "points (kruskalInit L b) = []" using assms(2) by (simp add: kruskalInit_def Let_def split: prod.splits)
qed

lemma kinv_steps:
  assumes "kstatic n es0"
  shows "kinv n es0 dn s \<Longrightarrow> \<exists>s' dn'. kruskalSteps k s = Some s' \<and> kinv n es0 dn' s'"
proof (induction k arbitrary: s dn)
  case 0
  then show ?case by auto
next
  case (Suc k)
  show ?case
  proof (cases "loopCond s")
    case True
    from kinv_step [OF assms Suc.prems True] obtain s1 where
      s1: "loopBody s = Some s1" "kinv n es0 (last (edges s) # dn) s1" by blast
    from Suc.IH [OF s1(2)] show ?thesis using True s1(1) by simp
  next
    case False
    then show ?thesis using Suc.prems by auto
  qed
qed

text \<open>The loop is the step function run for as many steps as there are edges.\<close>

lemma kruskalSteps_stopped: "\<not> loopCond s \<Longrightarrow> kruskalSteps k s = Some s"
  by (cases k) simp_all

lemma loopBody_pops: "loopBody s = Some s' \<Longrightarrow> edges s' = butlast (edges s)"
  by (auto simp: loopBody_def Let_def split: if_splits)

lemma kruskalLoop_steps: "kruskalLoop s = kruskalSteps (length (edges s)) s"
proof (induction s rule: kruskalLoop.induct)
  case (1 s)
  show ?case
  proof (cases "loopCond s")
    case False
    then show ?thesis by (subst kruskalLoop.simps) (simp add: kruskalSteps_stopped)
  next
    case True
    then have ne: "edges s \<noteq> []" by (simp add: loopCond_def)
    then obtain k where k: "length (edges s) = Suc k" by (cases "edges s") auto
    show ?thesis
    proof (cases "loopBody s")
      case None
      then show ?thesis using True k by (subst kruskalLoop.simps) simp
    next
      case (Some s')
      have "length (edges s') = k" using loopBody_pops [OF Some] k by simp
      with "1.IH" [OF True Some] have "kruskalLoop s' = kruskalSteps k s'" by simp
      then show ?thesis using True Some k by (subst kruskalLoop.simps) simp
    qed
  qed
qed

lemma loopBody_emits:
  "loopBody s = Some s' \<Longrightarrow> mst s' \<noteq> mst s \<Longrightarrow>
   mst s' = mst s @ [(p1 (last (edges s)), p2 (last (edges s)))] \<and>
   tagOf (tags s) (vid (p1 (last (edges s)))) \<noteq> tagOf (tags s) (vid (p2 (last (edges s))))"
  by (auto simp: loopBody_def Let_def split: if_splits)

lemma loopBody_known:
  "loopBody s = Some s' \<Longrightarrow> \<not> ratsnestLines s \<Longrightarrow> weight (last (edges s)) < 0 \<Longrightarrow> mst s' = mst s"
  by (auto simp: loopBody_def Let_def split: if_splits)

text \<open>
  C7. At every step of the run of \<^verbatim>\<open>kruskalMst\<close> (after any number \<open>k\<close> of runs of the loop
  body) two points carry the same tag exactly when they are connected by the known edges
  processed so far together with the air wires emitted so far; and a run of the loop body
  that emits an air wire appends the edge at the back of the list, whose two ends carried
  different tags at that moment.
\<close>

theorem tags_partition_is_connectivity:
  assumes "prepared b" and "env_ok L"
  shows "\<exists>s. kruskalSteps k (kruskalInit L b) = Some s \<and>
     (\<forall>i < length (mPoints b). \<forall>j < length (mPoints b).
        (tagOf (tags s) i = tagOf (tags s) j) \<longleftrightarrow>
        (i, j) \<in> conn (knownPairs (drop (length (edges s)) (sortEdges L (mEdges b))) \<union> mstPairs (mst s))) \<and>
     (\<forall>s'. loopCond s \<longrightarrow> loopBody s = Some s' \<longrightarrow> mst s' \<noteq> mst s \<longrightarrow>
        mst s' = mst s @ [(p1 (last (edges s)), p2 (last (edges s)))] \<and>
        tagOf (tags s) (vid (p1 (last (edges s)))) \<noteq> tagOf (tags s) (vid (p2 (last (edges s)))))"
proof (cases "length (mPoints b) = 0")
  case True
  have srt: "std_sort (\<lambda>a b. weight a > weight b) (sortEdges L)" using assms(2) by (simp add: env_ok_def)
  have "\<not> loopCond (kruskalInit L b)"
    using prepared_no_points(1) [OF assms(1) True srt] by (simp add: loopCond_def)
  then have "kruskalSteps k (kruskalInit L b) = Some (kruskalInit L b)" by (cases k) simp_all
  then show ?thesis using True \<open>\<not> loopCond (kruskalInit L b)\<close> by simp
next
  case False
  then have n0: "0 < length (mPoints b)" by simp
  have srt: "std_sort (\<lambda>a b. weight a > weight b) (sortEdges L)" using assms(2) by (simp add: env_ok_def)
  note init = kruskalInit_kinv [OF assms(1) n0 srt]
  from kinv_steps [OF init] obtain s dn where
    s: "kruskalSteps k (kruskalInit L b) = Some s"
       "kinv (length (mPoints b)) (sortEdges L (mEdges b)) dn s" by blast
  have "sortEdges L (mEdges b) = edges s @ dn" and pI: "partInv (length (mPoints b)) dn s"
    using s(2) unfolding kinv_def by blast+
  then have dn: "drop (length (edges s)) (sortEdges L (mEdges b)) = dn" by simp
  have A: "\<forall>i < length (mPoints b). \<forall>j < length (mPoints b).
        (tagOf (tags s) i = tagOf (tags s) j) \<longleftrightarrow>
        (i, j) \<in> conn (knownPairs (drop (length (edges s)) (sortEdges L (mEdges b))) \<union> mstPairs (mst s))"
    using pI unfolding dn partInv_def .
  have B: "\<forall>s'. loopCond s \<longrightarrow> loopBody s = Some s' \<longrightarrow> mst s' \<noteq> mst s \<longrightarrow>
        mst s' = mst s @ [(p1 (last (edges s)), p2 (last (edges s)))] \<and>
        tagOf (tags s) (vid (p1 (last (edges s)))) \<noteq> tagOf (tags s) (vid (p2 (last (edges s))))"
    using loopBody_emits by blast
  show ?thesis by (intro exI [of _ s] conjI) (rule s(1), rule A, rule B)
qed

lemma build_run:
  assumes fr: "fresh b" and ok: "env_ok L" and tri: "triangulation_ok L (mPoints b)"
    and n0: "0 < length (mPoints b)"
  shows "\<exists>s dn. kruskalLoop (kruskalInit L (withCandidates L b)) = Some s \<and>
           kstatic (length (mPoints b)) (sortEdges L (allEdges L b)) \<and>
           kinv (length (mPoints b)) (sortEdges L (allEdges L b)) dn s \<and> \<not> loopCond s \<and>
           buildAirWires L b = Some (map toAirWire (mst s), \<lparr>mPoints = points s, mEdges = edges s\<rparr>)"
proof -
  let ?b = "withCandidates L b"
  have len: "length (mEdges b) < 2 ^ 32" using fr by (simp add: fresh_def)
  have srt: "std_sort (\<lambda>a b. weight a > weight b) (sortEdges L)" using ok by (simp add: env_ok_def)
  have pr: "prepared ?b" by (rule withCandidates_prepared [OF fr ok tri])
  have pe: "mPoints ?b = mPoints b" "mEdges ?b = allEdges L b"
    by (simp_all add: withCandidates_edges [OF len] allEdges_def)
  have n0': "0 < length (mPoints ?b)" using n0 by (simp add: pe)
  from kruskal_run [OF pr n0' srt] obtain s dn where
    s: "kruskalLoop (kruskalInit L ?b) = Some s"
       "kinv (length (mPoints b)) (sortEdges L (allEdges L b)) dn s" "\<not> loopCond s"
    by (auto simp: pe)
  have "kstatic (length (mPoints b)) (sortEdges L (allEdges L b))"
    using kruskalInit_kinv(1) [OF pr n0' srt] by (simp add: pe)
  moreover have "buildAirWires L b = Some (map toAirWire (mst s), \<lparr>mPoints = points s, mEdges = edges s\<rparr>)"
    by (simp add: buildAirWires_def kruskalMst_def s(1))
  ultimately show ?thesis using s by blast
qed

lemma build_empty:
  assumes fr: "fresh b" and ok: "env_ok L" and n0: "length (mPoints b) = 0"
  shows "buildAirWires L b = Some ([], \<lparr>mPoints = [], mEdges = []\<rparr>)"
proof -
  let ?b = "withCandidates L b"
  have len: "length (mEdges b) < 2 ^ 32" and pr0: "prepared b" using fr by (simp_all add: fresh_def)
  have srt: "std_sort (\<lambda>a b. weight a > weight b) (sortEdges L)" using ok by (simp add: env_ok_def)
  have c: "candidates L (mPoints b) = []" using n0 by (simp add: candidates_def)
  have eq: "?b = b" by (simp add: withCandidates_edges [OF len] c)
  note e = prepared_no_points [OF pr0 n0 srt]
  have "\<not> loopCond (kruskalInit L b)" using e(1) by (simp add: loopCond_def)
  then have "kruskalLoop (kruskalInit L b) = Some (kruskalInit L b)"
    by (subst kruskalLoop.simps) simp
  then show ?thesis by (simp add: buildAirWires_def kruskalMst_def eq e)
qed

lemma allEdges_facts:
  assumes fr: "fresh b" and ok: "env_ok L"
  shows "knownPairs (sortEdges L (allEdges L b)) = idPair ` set (mEdges b)"
    and "idPair ` set (sortEdges L (allEdges L b)) =
         idPair ` set (mEdges b) \<union> idPair ` set (candidates L (mPoints b))"
    and "\<And>e. e \<in> set (sortEdges L (allEdges L b)) \<Longrightarrow> 0 \<le> weight e \<Longrightarrow>
         \<exists>c \<in> set (candidates L (mPoints b)). e = setWeight L c"
proof -
  have srt: "std_sort (\<lambda>a b. weight a > weight b) (sortEdges L)" using ok by (simp add: env_ok_def)
  have d: "\<And>a b. 0 \<le> dist2 L a b" using ok by (simp add: env_ok_def)
  have w: "\<forall>e \<in> set (mEdges b). weight e = - 1" using fr by (simp add: fresh_def)
  have st: "set (sortEdges L (allEdges L b)) = set (mEdges b) \<union> setWeight L ` set (candidates L (mPoints b))"
    by (simp add: std_sort_set [OF srt] allEdges_def)
  have wc: "0 \<le> weight (setWeight L c)" for c by (simp add: setWeight_def d)
  have ic: "idPair (setWeight L c) = idPair c" for c by (simp add: setWeight_def idPair_def)
  show "knownPairs (sortEdges L (allEdges L b)) = idPair ` set (mEdges b)"
    unfolding knownPairs_def st using w wc by (auto simp: not_less [symmetric])
  show "idPair ` set (sortEdges L (allEdges L b)) =
         idPair ` set (mEdges b) \<union> idPair ` set (candidates L (mPoints b))"
    unfolding st by (simp add: image_Un image_image ic)
  show "\<And>e. e \<in> set (sortEdges L (allEdges L b)) \<Longrightarrow> 0 \<le> weight e \<Longrightarrow>
         \<exists>c \<in> set (candidates L (mPoints b)). e = setWeight L c"
    unfolding st using w by auto
qed

lemma twoJoined_mk: "mkBuilder [(100, 200), (300, 400)] [(0, 1)] = Some twoJoined"
  by (simp add: mkBuilder_def empty_builder_def addPoint_def addEdge_def twoJoined_def toQreal_small)

lemma twoJoined_fresh: "fresh twoJoined"
  by (auto simp: fresh_def prepared_def copyOf_def twoJoined_def less_Suc_eq)

lemma two_triangulation_ok: "length pts = 2 \<Longrightarrow> \<forall>i < length pts. vid (pts ! i) = i \<Longrightarrow> triangulation_ok stableEnv pts"
proof -
  assume a: "length pts = 2" "\<forall>i < length pts. vid (pts ! i) = i"
  then obtain p q where pq: "pts = [p, q]" by (auto simp: length_Suc_conv numeral_2_eq_2)
  with a(2) have "vid p = 0" "vid q = 1" by auto
  then show ?thesis by (simp add: triangulation_ok_def stableEnv_def pq copyOf_def)
qed

theorem tags_partition_is_connectivity_witness:
  "prepared twoJoined \<and> env_ok stableEnv \<and>
   (\<exists>s. kruskalSteps 1 (kruskalInit stableEnv twoJoined) = Some s \<and>
     (\<forall>i < length (mPoints twoJoined). \<forall>j < length (mPoints twoJoined).
        (tagOf (tags s) i = tagOf (tags s) j) \<longleftrightarrow>
        (i, j) \<in> conn (knownPairs (drop (length (edges s)) (sortEdges stableEnv (mEdges twoJoined))) \<union>
                      mstPairs (mst s))) \<and>
     (\<forall>s'. loopCond s \<longrightarrow> loopBody s = Some s' \<longrightarrow> mst s' \<noteq> mst s \<longrightarrow>
        mst s' = mst s @ [(p1 (last (edges s)), p2 (last (edges s)))] \<and>
        tagOf (tags s) (vid (p1 (last (edges s)))) \<noteq> tagOf (tags s) (vid (p2 (last (edges s))))))"
proof -
  have p: "prepared twoJoined" using twoJoined_fresh by (simp add: fresh_def)
  from tags_partition_is_connectivity [OF p stableEnv_ok, of 1] p stableEnv_ok show ?thesis by simp
qed

text \<open>
  C6. On a fresh builder every air wire that \<^verbatim>\<open>buildAirWires\<close> returns is a candidate edge
  (an edge the candidate generator made, weighted with a squared distance, not with the
  sentinel of the known edges); and at every step of the run, a loop body that processes a
  known edge leaves the list of air wires as it is.
\<close>

theorem known_edges_never_emitted:
  assumes fr: "fresh b" and ok: "env_ok L" and tri: "triangulation_ok L (mPoints b)"
  shows "\<exists>ws b'. buildAirWires L b = Some (ws, b') \<and>
     (\<forall>w \<in> set ws. \<exists>c \<in> set (candidates L (mPoints b)).
        w = toAirWire (p1 c, p2 c) \<and> 0 \<le> weight (setWeight L c)) \<and>
     (\<forall>k s s'. kruskalSteps k (kruskalInit L (withCandidates L b)) = Some s \<longrightarrow> loopCond s \<longrightarrow>
        weight (last (edges s)) < 0 \<longrightarrow> loopBody s = Some s' \<longrightarrow> mst s' = mst s)"
proof -
  let ?n = "length (mPoints b)" and ?es0 = "sortEdges L (allEdges L b)"
  let ?b = "withCandidates L b"
  have len: "length (mEdges b) < 2 ^ 32" using fr by (simp add: fresh_def)
  have srt: "std_sort (\<lambda>a b. weight a > weight b) (sortEdges L)" using ok by (simp add: env_ok_def)
  have pr: "prepared ?b" by (rule withCandidates_prepared [OF fr ok tri])
  have pe: "mPoints ?b = mPoints b" "mEdges ?b = allEdges L b"
    by (simp_all add: withCandidates_edges [OF len] allEdges_def)
  have steps: "mst s' = mst s"
    if h: "kruskalSteps k (kruskalInit L ?b) = Some s" "loopCond s" "weight (last (edges s)) < 0"
       "loopBody s = Some s'" for k s s'
  proof (cases "?n = 0")
    case True
    have "\<not> loopCond (kruskalInit L ?b)"
      using prepared_no_points(1) [OF pr _ srt] True by (simp add: loopCond_def pe)
    then have "kruskalSteps k (kruskalInit L ?b) = Some (kruskalInit L ?b)" by (cases k) simp_all
    with h(1,2) \<open>\<not> loopCond (kruskalInit L ?b)\<close> show ?thesis by simp
  next
    case False
    then have n0: "0 < length (mPoints ?b)" by (simp add: pe)
    note init = kruskalInit_kinv [OF pr n0 srt]
    from kinv_steps [OF init, of k] h(1) obtain dn where
      inv: "kinv (length (mPoints ?b)) (sortEdges L (mEdges ?b)) dn s" by auto
    have es0: "sortEdges L (mEdges ?b) = edges s @ dn" and phI: "phaseInv dn s"
      using inv unfolding kinv_def by blast+
    have ne: "edges s \<noteq> []" using h(2) by (simp add: loopCond_def)
    note be = back_edge [OF init(1) es0 ne]
    have "\<not> ratsnestLines s"
    proof
      assume "ratsnestLines s"
      then obtain e where "e \<in> set dn" "0 \<le> weight e" using phI by (auto simp: phaseInv_def)
      with be(4) h(3) show False by fastforce
    qed
    then show ?thesis using h(3,4) by (simp add: loopBody_known)
  qed
  show ?thesis
  proof (cases "?n = 0")
    case True
    from build_empty [OF fr ok True] steps show ?thesis by auto
  next
    case False
    then have n0: "0 < ?n" by simp
    from build_run [OF fr ok tri n0] obtain s dn where
      s: "kinv ?n ?es0 dn s"
         "buildAirWires L b = Some (map toAirWire (mst s), \<lparr>mPoints = points s, mEdges = edges s\<rparr>)"
      by blast
    have "\<exists>c \<in> set (candidates L (mPoints b)). w = toAirWire (p1 c, p2 c) \<and> 0 \<le> weight (setWeight L c)"
      if "w \<in> set (map toAirWire (mst s))" for w
    proof -
      from that obtain m where m: "m \<in> set (mst s)" "w = toAirWire m" by auto
      from final_candidates [OF s(1)] m(1) obtain e where
        e: "e \<in> set ?es0" "0 \<le> weight e" "m = (p1 e, p2 e)" by blast
      from allEdges_facts(3) [OF fr ok e(1,2)] obtain c where
        c: "c \<in> set (candidates L (mPoints b))" "e = setWeight L c" by blast
      have "p1 e = p1 c" "p2 e = p2 c" using c(2) by (simp_all add: setWeight_def)
      with m(2) e(2,3) c show ?thesis by auto
    qed
    with s(2) steps show ?thesis by blast
  qed
qed

theorem known_edges_never_emitted_witness:
  "fresh twoJoined \<and> env_ok stableEnv \<and> triangulation_ok stableEnv (mPoints twoJoined) \<and>
   (\<exists>ws b'. buildAirWires stableEnv twoJoined = Some (ws, b') \<and>
     (\<forall>w \<in> set ws. \<exists>c \<in> set (candidates stableEnv (mPoints twoJoined)).
        w = toAirWire (p1 c, p2 c) \<and> 0 \<le> weight (setWeight stableEnv c)) \<and>
     (\<forall>k s s'. kruskalSteps k (kruskalInit stableEnv (withCandidates stableEnv twoJoined)) = Some s \<longrightarrow>
        loopCond s \<longrightarrow> weight (last (edges s)) < 0 \<longrightarrow> loopBody s = Some s' \<longrightarrow> mst s' = mst s))"
proof -
  have t: "triangulation_ok stableEnv (mPoints twoJoined)"
    by (rule two_triangulation_ok) (auto simp: twoJoined_def less_Suc_eq)
  from known_edges_never_emitted [OF twoJoined_fresh stableEnv_ok t] twoJoined_fresh stableEnv_ok t
  show ?thesis by blast
qed

lemma components_nonempty: "0 < n \<Longrightarrow> 0 < card (components n E)"
  by (auto simp: components_def card_gt_0_iff)

text \<open>
  C1. On a fresh builder (any points, any known edges between registered points), provided
  the known edges and the candidate edges together connect all points, \<^verbatim>\<open>buildAirWires\<close>
  returns exactly as many air wires as there are connected components under the known
  edges alone, minus one (with no point at all there is no component and no air wire). So
  each merge that the known edges perform takes away exactly one air wire.
\<close>

theorem airwire_count:
  assumes fr: "fresh b" and ok: "env_ok L" and tri: "triangulation_ok L (mPoints b)"
    and connects: "allConnected (length (mPoints b))
                     (idPair ` set (mEdges b) \<union> idPair ` set (candidates L (mPoints b)))"
  shows "\<exists>ws b'. buildAirWires L b = Some (ws, b') \<and>
           length ws = card (components (length (mPoints b)) (idPair ` set (mEdges b))) - 1 \<and>
           (mPoints b \<noteq> [] \<longrightarrow> 0 < card (components (length (mPoints b)) (idPair ` set (mEdges b))))"
proof (cases "length (mPoints b) = 0")
  case True
  have "components 0 (idPair ` set (mEdges b)) = {}" by (simp add: components_def)
  with build_empty [OF fr ok True] True show ?thesis by simp
next
  case False
  then have n0: "0 < length (mPoints b)" by simp
  let ?n = "length (mPoints b)" and ?es0 = "sortEdges L (allEdges L b)"
  from build_run [OF fr ok tri n0] obtain s dn where
    s: "kstatic ?n ?es0" "kinv ?n ?es0 dn s" "\<not> loopCond s"
       "buildAirWires L b = Some (map toAirWire (mst s), \<lparr>mPoints = points s, mEdges = edges s\<rparr>)"
    by blast
  have all: "allConnected ?n (idPair ` set ?es0)"
    using connects by (simp add: allEdges_facts(2) [OF fr ok])
  from final_connected(1) [OF s(1,2,3) all]
  have "length (mst s) + 1 = card (components ?n (idPair ` set (mEdges b)))"
    by (simp add: allEdges_facts(1) [OF fr ok])
  then show ?thesis using s(4) components_nonempty [OF n0] by auto
qed

lemma two_connects:
  assumes "length pts = 2" "\<forall>i < length pts. vid (pts ! i) = i"
  shows "allConnected (length pts) (E \<union> idPair ` set (candidates L pts))"
proof -
  have "(0, 1) \<in> idPair ` set (candidates L pts)"
    using assms by (simp add: candidates_def idPair_def)
  then have e: "(0, 1) \<in> conn (E \<union> idPair ` set (candidates L pts))" by (simp add: conn_edge)
  have "(i, j) \<in> conn (E \<union> idPair ` set (candidates L pts))" if "i < 2" "j < 2" for i j :: nat
  proof -
    from that have "i = 0 \<or> i = 1" "j = 0 \<or> j = 1" by auto
    then show ?thesis using e conn_sym [OF e] by (auto simp: conn_refl)
  qed
  then show ?thesis using assms(1) by (simp add: allConnected_def)
qed

theorem airwire_count_witness:
  "fresh twoJoined \<and> env_ok stableEnv \<and> triangulation_ok stableEnv (mPoints twoJoined) \<and>
   allConnected (length (mPoints twoJoined))
     (idPair ` set (mEdges twoJoined) \<union> idPair ` set (candidates stableEnv (mPoints twoJoined))) \<and>
   mPoints twoJoined \<noteq> [] \<and>
   (\<exists>ws b'. buildAirWires stableEnv twoJoined = Some (ws, b') \<and>
      length ws = card (components (length (mPoints twoJoined)) (idPair ` set (mEdges twoJoined))) - 1 \<and>
      0 < card (components (length (mPoints twoJoined)) (idPair ` set (mEdges twoJoined))))"
proof -
  have ids: "length (mPoints twoJoined) = 2" "\<forall>i < length (mPoints twoJoined). vid (mPoints twoJoined ! i) = i"
    by (auto simp: twoJoined_def less_Suc_eq)
  have t: "triangulation_ok stableEnv (mPoints twoJoined)" by (rule two_triangulation_ok [OF ids])
  have c: "allConnected (length (mPoints twoJoined))
     (idPair ` set (mEdges twoJoined) \<union> idPair ` set (candidates stableEnv (mPoints twoJoined)))"
    by (rule two_connects [OF ids])
  have ne: "mPoints twoJoined \<noteq> []" by (simp add: twoJoined_def)
  from airwire_count [OF twoJoined_fresh stableEnv_ok t c] twoJoined_fresh stableEnv_ok t c ne
  show ?thesis by blast
qed

lemma path_chain:
  "k < length q \<Longrightarrow> (vid (q ! 0), vid (q ! k)) \<in> conn (idPair ` set (pathEdges q))"
proof (induction k)
  case 0
  show ?case by (rule conn_refl)
next
  case (Suc k)
  let ?f = "\<lambda>i. \<lparr>p1 = q ! (i - 1), p2 = q ! i, weight = - 1\<rparr>"
  have "Suc k \<in> set [1..<length q]" using Suc.prems by simp
  then have "?f (Suc k) \<in> ?f ` set [1..<length q]" by (rule imageI)
  then have "\<lparr>p1 = q ! k, p2 = q ! Suc k, weight = - 1\<rparr> \<in> set (pathEdges q)"
    by (simp add: pathEdges_def)
  then have "(vid (q ! k), vid (q ! Suc k)) \<in> idPair ` set (pathEdges q)"
    by (force simp: idPair_def)
  then have "(vid (q ! k), vid (q ! Suc k)) \<in> conn (idPair ` set (pathEdges q))" by (rule conn_edge)
  moreover have "(vid (q ! 0), vid (q ! k)) \<in> conn (idPair ` set (pathEdges q))"
    using Suc by simp
  ultimately show ?case by (rule conn_trans [rotated])
qed

lemma path_connects:
  assumes ids: "\<forall>i < length pts. vid (pts ! i) = i" and perm: "mset q = mset pts"
  shows "allConnected (length pts) (idPair ` set (pathEdges q))"
  unfolding allConnected_def
proof (intro allI impI)
  fix i j assume ij: "i < length pts" "j < length pts"
  have st: "set q = set pts" using perm by (metis set_mset_mset)
  have reach: "(vid (q ! 0), m) \<in> conn (idPair ` set (pathEdges q))" if "m < length pts" for m
  proof -
    have "pts ! m \<in> set q" using that st by simp
    then obtain k where k: "k < length q" "q ! k = pts ! m" by (auto simp: in_set_conv_nth)
    from path_chain [OF k(1)] k(2) ids that show ?thesis by simp
  qed
  from reach [OF ij(1)] have "(i, vid (q ! 0)) \<in> conn (idPair ` set (pathEdges q))"
    by (rule conn_sym)
  from conn_trans [OF this reach [OF ij(2)]]
  show "(i, j) \<in> conn (idPair ` set (pathEdges q))" .
qed

lemma candidates_connect:
  assumes ids: "\<forall>i < length pts. vid (pts ! i) = i"
    and srt: "std_sort (\<lambda>a b. vx a < vx b) (sortPoints L)"
    and br: "length pts \<le> 2 \<or> arePointsColinear pts"
  shows "allConnected (length pts) (idPair ` set (candidates L pts))"
proof -
  consider "length pts \<le> 1" | "length pts = 2" | "3 \<le> length pts" "arePointsColinear pts"
    using br by linarith
  then show ?thesis
  proof cases
    case 1
    show ?thesis unfolding allConnected_def
    proof (intro allI impI)
      fix i j assume "i < length pts" "j < length pts"
      with 1 have "i = j" by simp
      then show "(i, j) \<in> conn (idPair ` set (candidates L pts))" by (simp add: conn_refl)
    qed
  next
    case 2
    from two_connects [OF 2 ids, of "{}" L] show ?thesis by simp
  next
    case 3
    have "mset (sortPoints L pts) = mset pts" using srt by (simp add: std_sort_def)
    from path_connects [OF ids this] 3 show ?thesis by (simp add: candidates_def)
  qed
qed

lemma allPairs_ends: "e \<in> set (allPairs ps) \<Longrightarrow> p1 e \<in> set ps \<and> p2 e \<in> set ps"
  by (induction ps) auto

lemma stable_triangulation_ok:
  "\<forall>i < length pts. vid (pts ! i) = i \<Longrightarrow> triangulation_ok stableEnv pts"
  using allPairs_ends by (auto simp: triangulation_ok_def stableEnv_def copyOf_nth)

lemma mst_coords:
  assumes "\<forall>m \<in> set ms. copyOf pts (fst m) \<and> copyOf pts (snd m)"
  shows "map_prod (\<lambda>i. coords (pts ! i)) (\<lambda>i. coords (pts ! i)) ` mstPairs ms \<subseteq> set (map toAirWire ms)"
  using assms by (auto simp: mstPairs_def toAirWire_def coords_def copyOf_def image_iff)

lemma build_copies:
  assumes fr: "fresh b" and ok: "env_ok L" and tri: "triangulation_ok L (mPoints b)"
    and e: "e \<in> set (sortEdges L (allEdges L b))"
  shows "copyOf (mPoints b) (p1 e) \<and> copyOf (mPoints b) (p2 e)"
proof -
  have len: "length (mEdges b) < 2 ^ 32" using fr by (simp add: fresh_def)
  have srt: "std_sort (\<lambda>a b. weight a > weight b) (sortEdges L)" using ok by (simp add: env_ok_def)
  have "prepared (withCandidates L b)" by (rule withCandidates_prepared [OF fr ok tri])
  moreover have "mPoints (withCandidates L b) = mPoints b" "mEdges (withCandidates L b) = allEdges L b"
    by (simp_all add: withCandidates_edges [OF len] allEdges_def)
  moreover have "e \<in> set (allEdges L b)" using e by (simp add: std_sort_set [OF srt])
  ultimately show ?thesis by (simp add: prepared_def)
qed

text \<open>
  With no known edge, and two points at most or points found colinear (the branches of
  \<^verbatim>\<open>buildAirWires\<close> that do without the triangulation), \<^verbatim>\<open>buildAirWires\<close> returns
  \<open>max 0 (pointCount - 1)\<close> air wires that connect every point with every other one, by
  ids and so by coordinates: a spanning tree. For two points the one air wire joins the
  two, also when they coincide.
\<close>

lemma spanning_tree_without_triangulation:
  assumes fr: "fresh b" and none: "mEdges b = []" and ok: "env_ok L"
    and tri: "triangulation_ok L (mPoints b)"
    and br: "length (mPoints b) \<le> 2 \<or> arePointsColinear (mPoints b)"
  shows "\<exists>ws b'. buildAirWires L b = Some (ws, b') \<and>
           int (length ws) = max 0 (int (length (mPoints b)) - 1) \<and>
           (\<exists>ms. ws = map toAirWire ms \<and> allConnected (length (mPoints b)) (mstPairs ms)) \<and>
           (\<forall>i < length (mPoints b). \<forall>j < length (mPoints b).
              (coords (mPoints b ! i), coords (mPoints b ! j)) \<in> conn (set ws)) \<and>
           (length (mPoints b) = 2 \<longrightarrow> ws = [(coords (mPoints b ! 0), coords (mPoints b ! 1))])"
proof (cases "length (mPoints b) = 0")
  case True
  from build_empty [OF fr ok True] True show ?thesis by (simp add: allConnected_def)
next
  case False
  then have n0: "0 < length (mPoints b)" by simp
  let ?n = "length (mPoints b)" and ?es0 = "sortEdges L (allEdges L b)"
  let ?c = "\<lambda>i. coords (mPoints b ! i)"
  have ids: "\<forall>i < ?n. vid (mPoints b ! i) = i" using fr by (simp add: fresh_def prepared_def)
  have srtE: "std_sort (\<lambda>a b. weight a > weight b) (sortEdges L)"
    and srtP: "std_sort (\<lambda>a b. vx a < vx b) (sortPoints L)"
    using ok by (simp_all add: env_ok_def)
  from build_run [OF fr ok tri n0] obtain s dn where
    s: "kstatic ?n ?es0" "kinv ?n ?es0 dn s" "\<not> loopCond s"
       "buildAirWires L b = Some (map toAirWire (mst s), \<lparr>mPoints = points s, mEdges = edges s\<rparr>)"
    by blast
  have kp: "knownPairs ?es0 = {}" using allEdges_facts(1) [OF fr ok] none by simp
  have all: "allConnected ?n (idPair ` set ?es0)"
    using candidates_connect [OF ids srtP br] by (simp add: allEdges_facts(2) [OF fr ok] none)
  note fc = final_connected [OF s(1,2,3) all]
  have "length (mst s) + 1 = ?n" using fc(1) by (simp add: kp components_empty)
  then have cnt: "int (length (map toAirWire (mst s))) = max 0 (int ?n - 1)" by simp
  have cp: "\<forall>m \<in> set (mst s). copyOf (mPoints b) (fst m) \<and> copyOf (mPoints b) (snd m)"
  proof
    fix m assume "m \<in> set (mst s)"
    with final_candidates [OF s(2)] obtain e where e: "e \<in> set ?es0" "m = (p1 e, p2 e)" by blast
    from build_copies [OF fr ok tri e(1)] e(2)
    show "copyOf (mPoints b) (fst m) \<and> copyOf (mPoints b) (snd m)" by simp
  qed
  have reach: "\<forall>i < ?n. \<forall>j < ?n. (?c i, ?c j) \<in> conn (set (map toAirWire (mst s)))"
  proof (intro allI impI)
    fix i j assume "i < ?n" "j < ?n"
    then have "(i, j) \<in> conn (mstPairs (mst s))" using fc(2) by (simp add: kp allConnected_def)
    then have "(?c i, ?c j) \<in> conn (map_prod ?c ?c ` mstPairs (mst s))" by (rule conn_image)
    moreover have "conn (map_prod ?c ?c ` mstPairs (mst s)) \<subseteq> conn (set (map toAirWire (mst s)))"
      by (rule conn_mono) (rule mst_coords [OF cp])
    ultimately show "(?c i, ?c j) \<in> conn (set (map toAirWire (mst s)))" by blast
  qed
  have two: "map toAirWire (mst s) = [(?c 0, ?c 1)]" if n2: "?n = 2"
  proof -
    let ?e = "\<lparr>p1 = mPoints b ! 0, p2 = mPoints b ! 1, weight = - 1\<rparr>"
    have "allEdges L b = [setWeight L ?e]" using n2 none by (simp add: allEdges_def candidates_def)
    then have "mset ?es0 = {#setWeight L ?e#}" using srtE by (simp add: std_sort_def)
    then have es0: "?es0 = [setWeight L ?e]" by (simp add: mset_single_iff_right)
    have w: "0 \<le> weight (setWeight L ?e)" using ok by (simp add: env_ok_def setWeight_def)
    have ip: "idPair (setWeight L ?e) = (0, 1)" using ids n2 by (simp add: setWeight_def idPair_def)
    have nc: "idPair (setWeight L ?e) \<notin> conn {}" unfolding ip by (simp add: conn_def)
    have "mst s = greedy {} (rev (filter (\<lambda>e. 0 \<le> weight e) ?es0))"
      using final_greedy [OF s(1,2,3)] by (simp only: kp)
    also have "\<dots> = greedy {} [setWeight L ?e]" using w by (simp only: es0) simp
    also have "\<dots> = [(p1 (setWeight L ?e), p2 (setWeight L ?e))]" using nc by simp
    finally have "mst s = [(mPoints b ! 0, mPoints b ! 1)]" by (simp add: setWeight_def)
    then show ?thesis by (simp add: toAirWire_def)
  qed
  have idc: "\<exists>ms. map toAirWire (mst s) = map toAirWire ms \<and> allConnected ?n (mstPairs ms)"
  proof (intro exI conjI)
    show "map toAirWire (mst s) = map toAirWire (mst s)" by (rule refl)
    show "allConnected ?n (mstPairs (mst s))" using fc(2) by (simp add: kp)
  qed
  show ?thesis
    by (intro exI [of _ "map toAirWire (mst s)"] exI [of _ "\<lparr>mPoints = points s, mEdges = edges s\<rparr>"]
          conjI impI) (rule s(4), rule cnt, rule idc, rule reach, erule two)
qed

lemmas run_defs = buildAirWires_def withCandidates_def candidates_def
   pathEdges_def stableEnv_def setWeight_def qrealDist2_def toQreal_small kruskalMst_def kruskalInit_def
   kruskalLoop.simps loopCond_def loopBody_def Let_def tagOf_def retag_def setTags_def
   toAirWire_def coords_def sqdist_def upt_conv_Cons

lemma initTags_geom: "map geom (fst (initTags ps k t)) = map geom ps"
proof (induction ps arbitrary: k t)
  case Nil
  show ?case by simp
next
  case (Cons p ps)
  obtain r t' where rt: "initTags ps (k + 1) (t(vid p \<mapsto> k)) = (r, t')" by fastforce
  from Cons.IH [of "k + 1" "t(vid p \<mapsto> k)"] have "map geom r = map geom ps"
    unfolding rt by simp
  moreover have "geom (p\<lparr>vtag := k\<rparr>) = geom p" by (simp add: geom_def)
  ultimately show ?case using rt by simp
qed

lemma twoJoined_twice:
  "buildTwice stableEnv twoJoined = Some ([], [((100, 200), (300, 400))])"
  by (simp add: buildTwice_def twoJoined_def run_defs)

text \<open>
  C10. \<^verbatim>\<open>buildAirWires\<close> leaves the ids and the coordinates of the registered points as they
  are; of the edge list it leaves a front part of the sorted list of known and candidate
  edges (what the loop did not take from the back). A second call on the same builder may
  return different air wires: for two points joined by a known edge the first call
  returns none and the second call returns one.
\<close>

theorem buildAirWires_frame:
  assumes fr: "fresh b" and ok: "env_ok L" and tri: "triangulation_ok L (mPoints b)"
  shows "(\<exists>ws b'. buildAirWires L b = Some (ws, b') \<and>
            map geom (mPoints b') = map geom (mPoints b) \<and>
            (\<exists>dn. sortEdges L (allEdges L b) = mEdges b' @ dn)) \<and>
         buildTwice stableEnv twoJoined = Some ([], [((100, 200), (300, 400))])"
proof (cases "length (mPoints b) = 0")
  case True
  have len: "length (mEdges b) < 2 ^ 32" and pr0: "prepared b" using fr by (simp_all add: fresh_def)
  have srt: "std_sort (\<lambda>a b. weight a > weight b) (sortEdges L)" using ok by (simp add: env_ok_def)
  have "allEdges L b = mEdges (withCandidates L b)" "withCandidates L b = b"
    using True by (simp_all add: withCandidates_edges [OF len] allEdges_def candidates_def)
  then have "sortEdges L (allEdges L b) = edges (kruskalInit L b)"
    by (simp add: kruskalInit_def Let_def split: prod.splits)
  then have "sortEdges L (allEdges L b) = []" by (simp add: prepared_no_points(1) [OF pr0 True srt])
  with build_empty [OF fr ok True] True twoJoined_twice show ?thesis by simp
next
  case False
  then have n0: "0 < length (mPoints b)" by simp
  let ?n = "length (mPoints b)" and ?es0 = "sortEdges L (allEdges L b)"
  have len: "length (mEdges b) < 2 ^ 32" using fr by (simp add: fresh_def)
  from build_run [OF fr ok tri n0] obtain s dn where
    s: "kruskalLoop (kruskalInit L (withCandidates L b)) = Some s" "kinv ?n ?es0 dn s"
       "buildAirWires L b = Some (map toAirWire (mst s), \<lparr>mPoints = points s, mEdges = edges s\<rparr>)"
    by blast
  have "map geom (points (kruskalInit L (withCandidates L b))) = map geom (mPoints b)"
  proof -
    obtain pts tg where it: "initTags (mPoints b) 0 Map.empty = (pts, tg)" by fastforce
    have g: "map geom (fst (initTags ps k t)) = map geom ps" for ps k t
      by (rule initTags_geom)
    have "points (kruskalInit L (withCandidates L b)) = pts"
      by (simp add: kruskalInit_def Let_def withCandidates_edges [OF len] it)
    with g [of "mPoints b" 0 Map.empty] it show ?thesis by simp
  qed
  with kruskalLoop_geom [OF s(1)] have 1: "map geom (points s) = map geom (mPoints b)" by simp
  have 2: "?es0 = edges s @ dn" using s(2) unfolding kinv_def by blast
  from s(3) 1 2 twoJoined_twice show ?thesis by auto
qed

theorem buildAirWires_frame_witness:
  "fresh twoJoined \<and> env_ok stableEnv \<and> triangulation_ok stableEnv (mPoints twoJoined) \<and>
   (\<exists>ws b'. buildAirWires stableEnv twoJoined = Some (ws, b') \<and>
            map geom (mPoints b') = map geom (mPoints twoJoined) \<and>
            (\<exists>dn. sortEdges stableEnv (allEdges stableEnv twoJoined) = mEdges b' @ dn)) \<and>
   buildTwice stableEnv twoJoined = Some ([], [((100, 200), (300, 400))])"
proof -
  have ids: "length (mPoints twoJoined) = 2" "\<forall>i < length (mPoints twoJoined). vid (mPoints twoJoined ! i) = i"
    by (auto simp: twoJoined_def less_Suc_eq)
  have t: "triangulation_ok stableEnv (mPoints twoJoined)" by (rule two_triangulation_ok [OF ids])
  from buildAirWires_frame [OF twoJoined_fresh stableEnv_ok t] twoJoined_fresh stableEnv_ok t
  show ?thesis by blast
qed

lemma greedy_cong: "conn E = conn F \<Longrightarrow> greedy E cs = greedy F cs"
proof (induction cs arbitrary: E F)
  case Nil
  show ?case by simp
next
  case (Cons c cs)
  have "conn (insert (idPair c) E) = conn (insert (idPair c) F)"
    by (rule conn_insert_cong [OF Cons.prems])
  from Cons.IH [OF this] Cons.IH [OF Cons.prems] Cons.prems show ?case by simp
qed

lemma addEdge_fresh:
  assumes fr: "fresh b" and add: "addEdge b i j = Some b2" and len: "length (mEdges b) + 1 < 2 ^ 32"
  shows "fresh b2" and "mPoints b2 = mPoints b"
    and "idPair ` set (mEdges b2) = insert (i, j) (idPair ` set (mEdges b))"
    and "i < length (mPoints b)"
proof -
  have ij: "i < length (mPoints b)" "j < length (mPoints b)"
    and b2: "b2 = b\<lparr>mEdges := mEdges b @ [\<lparr>p1 = mPoints b ! i, p2 = mPoints b ! j, weight = - 1\<rparr>]\<rparr>"
    using add by (auto simp: addEdge_def split: if_splits)
  have ids: "\<forall>k < length (mPoints b). vid (mPoints b ! k) = k" using fr by (simp add: fresh_def prepared_def)
  show "fresh b2" using fr ij len ids by (auto simp: b2 fresh_def prepared_def copyOf_def)
  show "mPoints b2 = mPoints b" by (simp add: b2)
  show "idPair ` set (mEdges b2) = insert (i, j) (idPair ` set (mEdges b))"
    using ids ij by (simp add: b2 idPair_def)
  show "i < length (mPoints b)" by (rule ij(1))
qed

text \<open>
  The candidate edges come out of \<^verbatim>\<open>std::sort\<close> by weight; when no two of them have the
  same weight, that fixes their order, whatever else is in the list.
\<close>

lemma candidates_sorted:
  assumes fr: "fresh b" and ok: "env_ok L"
  shows "mset (filter (\<lambda>e. 0 \<le> weight e) (sortEdges L (allEdges L b))) =
           mset (map (setWeight L) (candidates L (mPoints b)))"
    and "sorted_wrt (\<lambda>a b. weight b \<le> weight a) (filter (\<lambda>e. 0 \<le> weight e) (sortEdges L (allEdges L b)))"
proof -
  let ?es0 = "sortEdges L (allEdges L b)"
  have srt: "std_sort (\<lambda>a b. weight a > weight b) (sortEdges L)" using ok by (simp add: env_ok_def)
  have d: "\<And>a b. 0 \<le> dist2 L a b" using ok by (simp add: env_ok_def)
  have w: "\<forall>e \<in> set (mEdges b). weight e = - 1" using fr by (simp add: fresh_def)
  have "mset ?es0 = mset (allEdges L b)" using srt by (simp add: std_sort_def)
  then have "mset (filter (\<lambda>e. 0 \<le> weight e) ?es0) = filter_mset (\<lambda>e. 0 \<le> weight e) (mset (allEdges L b))"
    by simp
  also have "\<dots> = mset (filter (\<lambda>e. 0 \<le> weight e) (mEdges b)) +
                    mset (filter (\<lambda>e. 0 \<le> weight e) (map (setWeight L) (candidates L (mPoints b))))"
    by (simp add: allEdges_def)
  also have "filter (\<lambda>e. 0 \<le> weight e) (mEdges b) = []" using w by (auto simp: filter_empty_conv)
  also have "filter (\<lambda>e. 0 \<le> weight e) (map (setWeight L) (candidates L (mPoints b))) =
             map (setWeight L) (candidates L (mPoints b))"
    by (simp add: filter_id_conv setWeight_def d)
  finally show "mset (filter (\<lambda>e. 0 \<le> weight e) ?es0) = mset (map (setWeight L) (candidates L (mPoints b)))"
    by simp
  have "sorted_wrt (\<lambda>a b. \<not> weight b > weight a) ?es0" using srt by (simp add: std_sort_def)
  then have "sorted_wrt (\<lambda>a b. weight b \<le> weight a) ?es0" by (simp add: not_less)
  then show "sorted_wrt (\<lambda>a b. weight b \<le> weight a) (filter (\<lambda>e. 0 \<le> weight e) ?es0)"
    by (rule sorted_wrt_filter)
qed

lemma sorted_distinct_unique:
  fixes xs ys :: "edge list"
  assumes m: "mset xs = mset cs" "mset ys = mset cs" and dis: "distinct (map weight cs)"
    and sx: "sorted_wrt (\<lambda>a b. weight b \<le> weight a) xs"
    and sy: "sorted_wrt (\<lambda>a b. weight b \<le> weight a) ys"
  shows "xs = ys"
proof -
  have mm: "mset (map weight xs) = mset (map weight cs)" "mset (map weight ys) = mset (map weight cs)"
    using m by simp_all
  have dx: "distinct (map weight xs)" "distinct (map weight ys)"
    using mset_eq_imp_distinct_iff [OF mm(1)] mset_eq_imp_distinct_iff [OF mm(2)] dis by simp_all
  have st: "set xs = set cs" "set ys = set cs" using m by (metis set_mset_mset)+
  have inj: "inj_on weight (set xs \<union> set ys)" using dis by (simp add: st distinct_map)
  have "sorted (rev (map weight xs))" "sorted (rev (map weight ys))"
    using sx sy by (simp_all add: sorted_wrt_rev sorted_wrt_map sorted_map)
  moreover have "set (rev (map weight xs)) = set (rev (map weight ys))" by (simp add: st)
  ultimately have "rev (map weight xs) = rev (map weight ys)"
    using dx by (intro sorted_distinct_set_unique) simp_all
  then have "map weight xs = map weight ys" by simp
  then show ?thesis using inj by (rule map_inj_on)
qed

lemma distinct_sameorder:
  assumes fr: "fresh b" and fr2: "fresh b2" and pts: "mPoints b2 = mPoints b" and ok: "env_ok L"
    and dis: "distinct (map weight (map (setWeight L) (candidates L (mPoints b))))"
  shows "filter (\<lambda>e. 0 \<le> weight e) (sortEdges L (allEdges L b2)) =
         filter (\<lambda>e. 0 \<le> weight e) (sortEdges L (allEdges L b))"
  using candidates_sorted [OF fr2 ok] candidates_sorted [OF fr ok] dis
  by (intro sorted_distinct_unique [where cs = "map (setWeight L) (candidates L (mPoints b))"])
     (simp_all add: pts)

text \<open>
  C9 (amended). Adding a self-edge, or a known edge between two points that the known
  edges already connect, leaves the list of air wires returned by \<^verbatim>\<open>buildAirWires\<close> as it
  is when no two candidate edges have the same weight, and also whenever \<^verbatim>\<open>std::sort\<close>
  leaves the candidate edges in the same order in both runs; the air wires are candidate
  edges, never the added edge, and a loop body that meets a self-edge only removes it.
\<close>

theorem redundant_known_edge:
  assumes fr: "fresh b" and ok: "env_ok L" and tri: "triangulation_ok L (mPoints b)"
    and add: "addEdge b i j = Some b2" and len: "length (mEdges b) + 1 < 2 ^ 32"
    and redundant: "(i, j) \<in> conn (idPair ` set (mEdges b))"
    and order: "distinct (map weight (map (setWeight L) (candidates L (mPoints b)))) \<or>
                filter (\<lambda>e. 0 \<le> weight e) (sortEdges L (allEdges L b2)) =
                filter (\<lambda>e. 0 \<le> weight e) (sortEdges L (allEdges L b))"
  shows "(\<exists>ws b' b2'. buildAirWires L b = Some (ws, b') \<and> buildAirWires L b2 = Some (ws, b2') \<and>
            (\<forall>w \<in> set ws. \<exists>c \<in> set (candidates L (mPoints b)). w = toAirWire (p1 c, p2 c))) \<and>
         (\<forall>s. vid (p1 (last (edges s))) = vid (p2 (last (edges s))) \<longrightarrow>
            loopBody s = Some (s\<lparr>edges := butlast (edges s)\<rparr>))"
proof -
  note a = addEdge_fresh [OF fr add len]
  have sameorder: "filter (\<lambda>e. 0 \<le> weight e) (sortEdges L (allEdges L b2)) =
                   filter (\<lambda>e. 0 \<le> weight e) (sortEdges L (allEdges L b))"
    using order distinct_sameorder [OF fr a(1) a(2) ok] by blast
  have n0: "0 < length (mPoints b)" using a(4) by (cases "mPoints b") simp_all
  have tri2: "triangulation_ok L (mPoints b2)" and n02: "0 < length (mPoints b2)"
    using tri n0 by (simp_all add: a(2))
  from build_run [OF fr ok tri n0] obtain s dn where
    s: "kstatic (length (mPoints b)) (sortEdges L (allEdges L b))"
       "kinv (length (mPoints b)) (sortEdges L (allEdges L b)) dn s" "\<not> loopCond s"
       "buildAirWires L b = Some (map toAirWire (mst s), \<lparr>mPoints = points s, mEdges = edges s\<rparr>)"
    by blast
  from build_run [OF a(1) ok tri2 n02] obtain s2 dn2 where
    s2: "kstatic (length (mPoints b2)) (sortEdges L (allEdges L b2))"
       "kinv (length (mPoints b2)) (sortEdges L (allEdges L b2)) dn2 s2" "\<not> loopCond s2"
       "buildAirWires L b2 = Some (map toAirWire (mst s2), \<lparr>mPoints = points s2, mEdges = edges s2\<rparr>)"
    by blast
  have "conn (insert (i, j) (idPair ` set (mEdges b))) = conn (idPair ` set (mEdges b))"
    by (rule conn_absorb [OF redundant])
  then have c: "conn (knownPairs (sortEdges L (allEdges L b2))) = conn (knownPairs (sortEdges L (allEdges L b)))"
    by (simp add: allEdges_facts(1) [OF fr ok] allEdges_facts(1) [OF a(1) ok] a(3))
  have "mst s2 = greedy (knownPairs (sortEdges L (allEdges L b2)))
                   (rev (filter (\<lambda>e. 0 \<le> weight e) (sortEdges L (allEdges L b2))))"
    by (rule final_greedy [OF s2(1,2,3)])
  also have "\<dots> = greedy (knownPairs (sortEdges L (allEdges L b)))
                   (rev (filter (\<lambda>e. 0 \<le> weight e) (sortEdges L (allEdges L b))))"
    unfolding sameorder by (rule greedy_cong [OF c])
  also have "\<dots> = mst s" by (rule final_greedy [OF s(1,2,3), symmetric])
  finally have eq: "mst s2 = mst s" .
  have cand: "\<forall>w \<in> set (map toAirWire (mst s)). \<exists>c \<in> set (candidates L (mPoints b)). w = toAirWire (p1 c, p2 c)"
  proof
    fix w assume "w \<in> set (map toAirWire (mst s))"
    then obtain m where m: "m \<in> set (mst s)" "w = toAirWire m" by auto
    from final_candidates [OF s(2)] m(1) obtain e where
      e: "e \<in> set (sortEdges L (allEdges L b))" "0 \<le> weight e" "m = (p1 e, p2 e)" by blast
    from allEdges_facts(3) [OF fr ok e(1,2)] obtain c where
      c: "c \<in> set (candidates L (mPoints b))" "e = setWeight L c" by blast
    have "p1 e = p1 c" "p2 e = p2 c" using c(2) by (simp_all add: setWeight_def)
    with m(2) e(3) c(1) show "\<exists>c \<in> set (candidates L (mPoints b)). w = toAirWire (p1 c, p2 c)" by auto
  qed
  have self: "\<forall>s. vid (p1 (last (edges s))) = vid (p2 (last (edges s))) \<longrightarrow>
            loopBody s = Some (s\<lparr>edges := butlast (edges s)\<rparr>)"
    by (simp add: step_same)
  have both: "\<exists>ws b' b2'. buildAirWires L b = Some (ws, b') \<and> buildAirWires L b2 = Some (ws, b2') \<and>
            (\<forall>w \<in> set ws. \<exists>c \<in> set (candidates L (mPoints b)). w = toAirWire (p1 c, p2 c))"
    using s(4) s2(4) cand by (simp add: eq)
  show ?thesis using both self by (rule conjI)
qed

lemmas build_defs = airWiresOf_def mkBuilder_def empty_builder_def addPoint_def addEdge_def
  toQreal_small

lemma threeInLine_fresh: "fresh threeInLine"
  by (auto simp: fresh_def prepared_def copyOf_def threeInLine_def less_Suc_eq)

lemma stable_sameorder:
  assumes "fresh b" "fresh b2" "mPoints b2 = mPoints b"
  shows "filter (\<lambda>e. 0 \<le> weight e) (sortEdges stableEnv (allEdges stableEnv b2)) =
         filter (\<lambda>e. 0 \<le> weight e) (sortEdges stableEnv (allEdges stableEnv b))"
proof -
  have k: "filter (\<lambda>e. 0 \<le> weight e) (mEdges c) = []" if "fresh c" for c
    using that by (auto simp: fresh_def filter_empty_conv)
  have c: "filter (\<lambda>e. 0 \<le> weight e) (map (setWeight stableEnv) cs) = map (setWeight stableEnv) cs" for cs
    by (simp add: filter_id_conv setWeight_def stableEnv_def qrealDist2_nonneg)
  have "filter (\<lambda>e. 0 \<le> weight e) (sortEdges stableEnv (allEdges stableEnv c)) =
        sort_key (\<lambda>e. - weight e) (map (setWeight stableEnv) (candidates stableEnv (mPoints c)))"
    if "fresh c" for c
  proof -
    have "sortEdges stableEnv = sort_key (\<lambda>e. - weight e)" by (simp add: stableEnv_def)
    then show ?thesis by (simp only: filter_sort allEdges_def filter_append k [OF that] c) simp
  qed
  then show ?thesis using assms by simp
qed

lemma unevenLine_fresh: "fresh unevenLine"
  by (auto simp: fresh_def prepared_def copyOf_def unevenLine_def less_Suc_eq)

lemma unevenLine_distinct:
  "distinct (map weight (map (setWeight stableEnv) (candidates stableEnv (mPoints unevenLine))))"
proof -
  have "arePointsColinear (mPoints unevenLine)" by (simp add: unevenLine_def sqdist_def)
  then have "candidates stableEnv (mPoints unevenLine) = pathEdges (mPoints unevenLine)"
    by (simp add: candidates_def) (simp add: unevenLine_def stableEnv_def)
  then show ?thesis
    by (simp add: pathEdges_def upt_conv_Cons setWeight_def stableEnv_def qrealDist2_def
          toQreal_small unevenLine_def)
qed

text \<open>
  Two runs: candidate edges of the weights \<open>100\<close> and \<open>400\<close>, and two candidate edges of the
  weight \<open>100\<close> under a sort that keeps them in order.
\<close>

theorem redundant_known_edge_witness:
  "(fresh unevenLine \<and> env_ok stableEnv \<and> triangulation_ok stableEnv (mPoints unevenLine) \<and>
    addEdge unevenLine 1 1 = Some unevenLineSelf \<and> length (mEdges unevenLine) + 1 < 2 ^ 32 \<and>
    (1, 1) \<in> conn (idPair ` set (mEdges unevenLine)) \<and>
    distinct (map weight (map (setWeight stableEnv) (candidates stableEnv (mPoints unevenLine)))) \<and>
    (\<exists>ws b' b2'. buildAirWires stableEnv unevenLine = Some (ws, b') \<and>
       buildAirWires stableEnv unevenLineSelf = Some (ws, b2') \<and>
       (\<forall>w \<in> set ws. \<exists>c \<in> set (candidates stableEnv (mPoints unevenLine)). w = toAirWire (p1 c, p2 c)))) \<and>
   (fresh threeInLine \<and> triangulation_ok stableEnv (mPoints threeInLine) \<and>
    addEdge threeInLine 1 1 = Some threeInLineSelf \<and> length (mEdges threeInLine) + 1 < 2 ^ 32 \<and>
    (1, 1) \<in> conn (idPair ` set (mEdges threeInLine)) \<and>
    filter (\<lambda>e. 0 \<le> weight e) (sortEdges stableEnv (allEdges stableEnv threeInLineSelf)) =
      filter (\<lambda>e. 0 \<le> weight e) (sortEdges stableEnv (allEdges stableEnv threeInLine)) \<and>
    (\<exists>ws b' b2'. buildAirWires stableEnv threeInLine = Some (ws, b') \<and>
       buildAirWires stableEnv threeInLineSelf = Some (ws, b2') \<and>
       (\<forall>w \<in> set ws. \<exists>c \<in> set (candidates stableEnv (mPoints threeInLine)). w = toAirWire (p1 c, p2 c))))"
proof (rule conjI)
  have ids: "\<forall>i < length (mPoints unevenLine). vid (mPoints unevenLine ! i) = i"
    using unevenLine_fresh by (simp add: fresh_def prepared_def)
  have t: "triangulation_ok stableEnv (mPoints unevenLine)" by (rule stable_triangulation_ok [OF ids])
  have a: "addEdge unevenLine 1 1 = Some unevenLineSelf"
    by (simp add: addEdge_def unevenLineSelf_def unevenLine_def)
  have l: "length (mEdges unevenLine) + 1 < 2 ^ 32" by (simp add: unevenLine_def)
  have r: "(1, 1) \<in> conn (idPair ` set (mEdges unevenLine))" by (rule conn_refl)
  have d: "distinct (map weight (map (setWeight stableEnv) (candidates stableEnv (mPoints unevenLine)))) \<or>
    filter (\<lambda>e. 0 \<le> weight e) (sortEdges stableEnv (allEdges stableEnv unevenLineSelf)) =
      filter (\<lambda>e. 0 \<le> weight e) (sortEdges stableEnv (allEdges stableEnv unevenLine))"
    using unevenLine_distinct by (rule disjI1)
  from redundant_known_edge [OF unevenLine_fresh stableEnv_ok t a l r d]
    unevenLine_fresh stableEnv_ok t a l r unevenLine_distinct
  show "fresh unevenLine \<and> env_ok stableEnv \<and> triangulation_ok stableEnv (mPoints unevenLine) \<and>
    addEdge unevenLine 1 1 = Some unevenLineSelf \<and> length (mEdges unevenLine) + 1 < 2 ^ 32 \<and>
    (1, 1) \<in> conn (idPair ` set (mEdges unevenLine)) \<and>
    distinct (map weight (map (setWeight stableEnv) (candidates stableEnv (mPoints unevenLine)))) \<and>
    (\<exists>ws b' b2'. buildAirWires stableEnv unevenLine = Some (ws, b') \<and>
       buildAirWires stableEnv unevenLineSelf = Some (ws, b2') \<and>
       (\<forall>w \<in> set ws. \<exists>c \<in> set (candidates stableEnv (mPoints unevenLine)). w = toAirWire (p1 c, p2 c)))"
    by blast
next
  have ids: "\<forall>i < length (mPoints threeInLine). vid (mPoints threeInLine ! i) = i"
    using threeInLine_fresh by (simp add: fresh_def prepared_def)
  have t: "triangulation_ok stableEnv (mPoints threeInLine)" by (rule stable_triangulation_ok [OF ids])
  have a: "addEdge threeInLine 1 1 = Some threeInLineSelf"
    by (simp add: addEdge_def threeInLineSelf_def threeInLine_def)
  have l: "length (mEdges threeInLine) + 1 < 2 ^ 32" by (simp add: threeInLine_def)
  have r: "(1, 1) \<in> conn (idPair ` set (mEdges threeInLine))" by (rule conn_refl)
  note f2 = addEdge_fresh(1,2) [OF threeInLine_fresh a l]
  have so: "filter (\<lambda>e. 0 \<le> weight e) (sortEdges stableEnv (allEdges stableEnv threeInLineSelf)) =
     filter (\<lambda>e. 0 \<le> weight e) (sortEdges stableEnv (allEdges stableEnv threeInLine))"
    by (rule stable_sameorder [OF threeInLine_fresh f2])
  have so': "distinct (map weight (map (setWeight stableEnv) (candidates stableEnv (mPoints threeInLine)))) \<or>
    filter (\<lambda>e. 0 \<le> weight e) (sortEdges stableEnv (allEdges stableEnv threeInLineSelf)) =
      filter (\<lambda>e. 0 \<le> weight e) (sortEdges stableEnv (allEdges stableEnv threeInLine))"
    using so by (rule disjI2)
  from redundant_known_edge [OF threeInLine_fresh stableEnv_ok t a l r so']
    threeInLine_fresh t a l r so
  show "fresh threeInLine \<and> triangulation_ok stableEnv (mPoints threeInLine) \<and>
    addEdge threeInLine 1 1 = Some threeInLineSelf \<and> length (mEdges threeInLine) + 1 < 2 ^ 32 \<and>
    (1, 1) \<in> conn (idPair ` set (mEdges threeInLine)) \<and>
    filter (\<lambda>e. 0 \<le> weight e) (sortEdges stableEnv (allEdges stableEnv threeInLineSelf)) =
      filter (\<lambda>e. 0 \<le> weight e) (sortEdges stableEnv (allEdges stableEnv threeInLine)) \<and>
    (\<exists>ws b' b2'. buildAirWires stableEnv threeInLine = Some (ws, b') \<and>
       buildAirWires stableEnv threeInLineSelf = Some (ws, b2') \<and>
       (\<forall>w \<in> set ws. \<exists>c \<in> set (candidates stableEnv (mPoints threeInLine)). w = toAirWire (p1 c, p2 c)))"
    by blast
qed

text \<open>
  C8 (amended). The selector takes the candidate edges in the order in which \<^verbatim>\<open>std::sort\<close>
  leaves them, read from the back: by weight, cheapest first, and among edges of equal
  weight in whatever order the sort left them. The air wires are the Kruskal selection
  from that sequence on top of the known edges.
\<close>

theorem selection_follows_sorted_order:
  assumes fr: "fresh b" and ok: "env_ok L" and tri: "triangulation_ok L (mPoints b)"
  shows "\<exists>ws b' cs. buildAirWires L b = Some (ws, b') \<and>
           cs = rev (filter (\<lambda>e. 0 \<le> weight e) (sortEdges L (allEdges L b))) \<and>
           mset cs = mset (map (setWeight L) (candidates L (mPoints b))) \<and>
           sorted (map weight cs) \<and>
           ws = map toAirWire (greedy (idPair ` set (mEdges b)) cs)"
proof -
  let ?es0 = "sortEdges L (allEdges L b)"
  let ?cs = "rev (filter (\<lambda>e. 0 \<le> weight e) ?es0)"
  have srt: "std_sort (\<lambda>a b. weight a > weight b) (sortEdges L)" using ok by (simp add: env_ok_def)
  have d: "\<And>a b. 0 \<le> dist2 L a b" using ok by (simp add: env_ok_def)
  have w: "\<forall>e \<in> set (mEdges b). weight e = - 1" using fr by (simp add: fresh_def)
  have "mset ?es0 = mset (allEdges L b)" using srt by (simp add: std_sort_def)
  then have "mset ?cs = filter_mset (\<lambda>e. 0 \<le> weight e) (mset (allEdges L b))" by simp
  also have "\<dots> = mset (filter (\<lambda>e. 0 \<le> weight e) (mEdges b)) +
                    mset (filter (\<lambda>e. 0 \<le> weight e) (map (setWeight L) (candidates L (mPoints b))))"
    by (simp add: allEdges_def)
  also have "filter (\<lambda>e. 0 \<le> weight e) (mEdges b) = []" using w by (auto simp: filter_empty_conv)
  also have "filter (\<lambda>e. 0 \<le> weight e) (map (setWeight L) (candidates L (mPoints b))) =
             map (setWeight L) (candidates L (mPoints b))"
    by (simp add: filter_id_conv setWeight_def d)
  finally have 1: "mset ?cs = mset (map (setWeight L) (candidates L (mPoints b)))" by simp
  have "sorted_wrt (\<lambda>a b. weight b \<le> weight a) ?es0"
  proof -
    have "sorted_wrt (\<lambda>a b. \<not> weight b > weight a) ?es0" using srt by (simp add: std_sort_def)
    then show ?thesis by (simp add: not_less)
  qed
  then have "sorted_wrt (\<lambda>a b. weight b \<le> weight a) (filter (\<lambda>e. 0 \<le> weight e) ?es0)"
    by (rule sorted_wrt_filter)
  then have 2: "sorted (map weight ?cs)" by (simp add: sorted_map sorted_wrt_rev sorted_wrt_map rev_map)
  have 3: "\<exists>ws b'. buildAirWires L b = Some (ws, b') \<and>
             ws = map toAirWire (greedy (idPair ` set (mEdges b)) ?cs)"
  proof (cases "length (mPoints b) = 0")
    case True
    have len: "length (mEdges b) < 2 ^ 32" and pr0: "prepared b" using fr by (simp_all add: fresh_def)
    have "allEdges L b = mEdges (withCandidates L b)" "withCandidates L b = b"
      using True by (simp_all add: withCandidates_edges [OF len] allEdges_def candidates_def)
    then have "?es0 = edges (kruskalInit L b)"
      by (simp add: kruskalInit_def Let_def split: prod.splits)
    then have "?es0 = []" by (simp add: prepared_no_points(1) [OF pr0 True srt])
    with build_empty [OF fr ok True] show ?thesis by simp
  next
    case False
    then have n0: "0 < length (mPoints b)" by simp
    from build_run [OF fr ok tri n0] obtain s dn where
      s: "kstatic (length (mPoints b)) ?es0" "kinv (length (mPoints b)) ?es0 dn s" "\<not> loopCond s"
         "buildAirWires L b = Some (map toAirWire (mst s), \<lparr>mPoints = points s, mEdges = edges s\<rparr>)"
      by blast
    from final_greedy [OF s(1,2,3)] s(4) show ?thesis by (simp add: allEdges_facts(1) [OF fr ok])
  qed
  from 1 2 3 show ?thesis by blast
qed

theorem selection_follows_sorted_order_witness:
  "fresh threeInLine \<and> env_ok stableEnv \<and> triangulation_ok stableEnv (mPoints threeInLine) \<and>
   (\<exists>ws b' cs. buildAirWires stableEnv threeInLine = Some (ws, b') \<and>
           cs = rev (filter (\<lambda>e. 0 \<le> weight e) (sortEdges stableEnv (allEdges stableEnv threeInLine))) \<and>
           mset cs = mset (map (setWeight stableEnv) (candidates stableEnv (mPoints threeInLine))) \<and>
           sorted (map weight cs) \<and>
           ws = map toAirWire (greedy (idPair ` set (mEdges threeInLine)) cs))"
proof -
  have ids: "\<forall>i < length (mPoints threeInLine). vid (mPoints threeInLine ! i) = i"
    using threeInLine_fresh by (simp add: fresh_def prepared_def)
  have t: "triangulation_ok stableEnv (mPoints threeInLine)" by (rule stable_triangulation_ok [OF ids])
  from selection_follows_sorted_order [OF threeInLine_fresh stableEnv_ok t]
    threeInLine_fresh stableEnv_ok t
  show ?thesis by blast
qed

section \<open>The sort of GCC on the edges of three points in a line\<close>

text \<open>
  The runs below are evaluated in steps: the edge list that \<^verbatim>\<open>buildAirWires\<close> hands to
  \<^verbatim>\<open>kruskalMst\<close>, the list as \<^verbatim>\<open>std::sort\<close> leaves it (the introsort loop, then the final
  insertion sort), and the loop of \<^verbatim>\<open>kruskalMst\<close> on that list.
\<close>

lemma edge_weights:
  "weight known02 = - 1" "weight self11 = - 1" "weight cand01 = 100" "weight cand12 = 100"
  by (simp_all add: known02_def self11_def cand01_def cand12_def)

lemma gnu_sortI:
  assumes "length xs = n" "0 < n" "lg n * 2 = d" "introsort_loop cmp d xs 0 n = Some ys"
    "length ys = n" "final_insertion_sort cmp ys 0 n = zs"
  shows "gnu_sort cmp xs = Some zs"
  using assms by (auto simp: gnu_sort_def)

lemmas introsort_defs = introsort_loop.simps unguarded_partition_pivot_def
  unguarded_partition.simps move_median_to_first_def iter_swap_def scanUp_def scanDown_def Let_def

lemmas insertion_defs = final_insertion_sort_def insertion_sort_def unguarded_insertion_sort_def
  unguarded_linear_insert_def Let_def upt_conv_Cons


text \<open>
  Sixteen edges are not partitioned: the insertion sort alone sorts them and keeps edges of
  equal weight in order. Seventeen edges are partitioned once around the median of three,
  and the swaps of the partition exchange the two candidate edges.
\<close>

lemma sort16:
  "gnu_sort (\<lambda>a b. weight a > weight b)
     [known02, known02, known02, known02, known02, known02, known02, known02, known02, known02,
      known02, known02, known02, known02, cand01, cand12] =
   Some [cand01, cand12, known02, known02, known02, known02, known02, known02, known02, known02,
      known02, known02, known02, known02, known02, known02]"
proof (rule gnu_sortI [where n = 16 and d = 8])
  show "lg 16 * 2 = 8" by (simp add: lg.simps)
  show "introsort_loop (\<lambda>a b. weight a > weight b) 8
     [known02, known02, known02, known02, known02, known02, known02, known02, known02, known02,
      known02, known02, known02, known02, cand01, cand12] 0 16 =
    Some [known02, known02, known02, known02, known02, known02, known02, known02, known02, known02,
      known02, known02, known02, known02, cand01, cand12]"
    by (simp add: introsort_defs edge_weights)
  show "final_insertion_sort (\<lambda>a b. weight a > weight b)
     [known02, known02, known02, known02, known02, known02, known02, known02, known02, known02,
      known02, known02, known02, known02, cand01, cand12] 0 16 =
    [cand01, cand12, known02, known02, known02, known02, known02, known02, known02, known02,
      known02, known02, known02, known02, known02, known02]"
    by (simp add: insertion_defs edge_weights)
qed simp_all

lemma sort17:
  "gnu_sort (\<lambda>a b. weight a > weight b)
     [known02, known02, known02, known02, known02, known02, known02, known02, known02, known02,
      known02, known02, known02, known02, known02, cand01, cand12] =
   Some [cand12, cand01, known02, known02, known02, known02, known02, known02, known02, known02,
      known02, known02, known02, known02, known02, known02, known02]"
proof (rule gnu_sortI [where n = 17 and d = 8])
  show "lg 17 * 2 = 8" by (simp add: lg.simps)
  show "introsort_loop (\<lambda>a b. weight a > weight b) 8
     [known02, known02, known02, known02, known02, known02, known02, known02, known02, known02,
      known02, known02, known02, known02, known02, cand01, cand12] 0 17 =
    Some [known02, cand12, cand01, known02, known02, known02, known02, known02, known02, known02,
      known02, known02, known02, known02, known02, known02, known02]"
    by (simp add: introsort_defs edge_weights)
  show "final_insertion_sort (\<lambda>a b. weight a > weight b)
     [known02, cand12, cand01, known02, known02, known02, known02, known02, known02, known02,
      known02, known02, known02, known02, known02, known02, known02] 0 17 =
    [cand12, cand01, known02, known02, known02, known02, known02, known02, known02, known02,
      known02, known02, known02, known02, known02, known02, known02]"
    by (simp add: insertion_defs edge_weights)
qed simp_all

lemma sort17s:
  "gnu_sort (\<lambda>a b. weight a > weight b)
     [known02, known02, known02, known02, known02, known02, known02, known02, known02, known02,
      known02, known02, known02, known02, self11, cand01, cand12] =
   Some [cand12, cand01, known02, self11, known02, known02, known02, known02, known02, known02,
      known02, known02, known02, known02, known02, known02, known02]"
proof (rule gnu_sortI [where n = 17 and d = 8])
  show "lg 17 * 2 = 8" by (simp add: lg.simps)
  show "introsort_loop (\<lambda>a b. weight a > weight b) 8
     [known02, known02, known02, known02, known02, known02, known02, known02, known02, known02,
      known02, known02, known02, known02, self11, cand01, cand12] 0 17 =
    Some [known02, cand12, cand01, self11, known02, known02, known02, known02, known02, known02,
      known02, known02, known02, known02, known02, known02, known02]"
    by (simp add: introsort_defs edge_weights)
  show "final_insertion_sort (\<lambda>a b. weight a > weight b)
     [known02, cand12, cand01, self11, known02, known02, known02, known02, known02, known02,
      known02, known02, known02, known02, known02, known02, known02] 0 17 =
    [cand12, cand01, known02, self11, known02, known02, known02, known02, known02, known02,
      known02, known02, known02, known02, known02, known02, known02]"
    by (simp add: insertion_defs edge_weights)
qed simp_all

lemma linePoints_sorted: "sortPoints gnuEnv linePoints = linePoints"
proof -
  have "gnu_sort (\<lambda>a b. vx a < vx b) linePoints = Some linePoints"
  proof (rule gnu_sortI [where n = 3 and d = 2])
    show "lg 3 * 2 = 2" by (simp add: lg.simps)
    show "introsort_loop (\<lambda>a b. vx a < vx b) 2 linePoints 0 3 = Some linePoints"
      by (simp add: introsort_loop.simps)
    show "final_insertion_sort (\<lambda>a b. vx a < vx b) linePoints 0 3 = linePoints"
      by (simp add: insertion_defs linePoints_def)
  qed (simp_all add: linePoints_def)
  then show ?thesis by (simp add: gnuEnv_def gnu_std_sort_def)
qed

lemma linePoints_colinear: "arePointsColinear linePoints"
  by (simp add: linePoints_def sqdist_def)

lemma line_candidates:
  "map (setWeight gnuEnv) (candidates gnuEnv linePoints) = [cand01, cand12]"
proof -
  have "candidates gnuEnv linePoints = pathEdges linePoints"
    using linePoints_colinear by (simp add: candidates_def linePoints_sorted) (simp add: linePoints_def)
  moreover have "dist2 gnuEnv = qrealDist2" by (simp add: gnuEnv_def)
  ultimately show ?thesis
    by (simp add: pathEdges_def setWeight_def cand01_def cand12_def upt_conv_Cons
          qrealDist2_def toQreal_small linePoints_def)
qed

lemma line_allEdges: "allEdges gnuEnv (lineBuilder k es) = replicate k known02 @ es @ [cand01, cand12]"
  by (simp add: allEdges_def lineBuilder_def line_candidates)

lemmas kruskal_defs = kruskalMst_def kruskalInit_def kruskalLoop.simps loopCond_def loopBody_def
  Let_def tagOf_def retag_def setTags_def toAirWire_def coords_def upt_conv_Cons

lemma line_kruskal16:
  assumes "sortEdges L es = [cand01, cand12, known02, known02, known02, known02, known02, known02, known02, known02,
      known02, known02, known02, known02, known02, known02]"
  shows "map_option fst (kruskalMst L \<lparr>mPoints = linePoints, mEdges = es\<rparr>) = Some [((10, 0), (20, 0))]"
  by (simp add: kruskal_defs assms linePoints_def known02_def cand01_def cand12_def)

lemma line_kruskal17:
  assumes "sortEdges L es = [cand12, cand01, known02, known02, known02, known02, known02, known02, known02, known02,
      known02, known02, known02, known02, known02, known02, known02]"
  shows "map_option fst (kruskalMst L \<lparr>mPoints = linePoints, mEdges = es\<rparr>) = Some [((0, 0), (10, 0))]"
  by (simp add: kruskal_defs assms linePoints_def known02_def cand01_def cand12_def)

lemma line_kruskal17s:
  assumes "sortEdges L es = [cand12, cand01, known02, self11, known02, known02, known02, known02, known02, known02,
      known02, known02, known02, known02, known02, known02, known02]"
  shows "map_option fst (kruskalMst L \<lparr>mPoints = linePoints, mEdges = es\<rparr>) = Some [((0, 0), (10, 0))]"
  by (simp add: kruskal_defs assms linePoints_def known02_def cand01_def cand12_def self11_def)

lemma line_kruskal17_stable:
  assumes "sortEdges L es = [cand01, cand12, known02, known02, known02, known02, known02, known02, known02, known02,
      known02, known02, known02, known02, known02, known02, known02]"
  shows "map_option fst (kruskalMst L \<lparr>mPoints = linePoints, mEdges = es\<rparr>) = Some [((10, 0), (20, 0))]"
  by (simp add: kruskal_defs assms linePoints_def known02_def cand01_def cand12_def)

lemma line_mk:
  "mkBuilder [(0, 0), (10, 0), (20, 0)] (replicate k (0, 2) @ [(1, 1)]) = Some (lineBuilder k [self11])"
  "mkBuilder [(0, 0), (10, 0), (20, 0)] (replicate k (0, 2)) = Some (lineBuilder k [])"
proof -
  let ?b = "addPoints empty_builder [(0, 0), (10, 0), (20, 0)]"
  have b: "?b = \<lparr>mPoints = linePoints, mEdges = []\<rparr>"
    by (simp add: empty_builder_def addPoint_def toQreal_small linePoints_def)
  have r: "addEdges \<lparr>mPoints = linePoints, mEdges = es\<rparr> (replicate k (0, 2) @ rest) =
           addEdges \<lparr>mPoints = linePoints, mEdges = es @ replicate k known02\<rparr> rest" for es rest
  proof (induction k arbitrary: es)
    case 0
    show ?case by simp
  next
    case (Suc k)
    have "addEdge \<lparr>mPoints = linePoints, mEdges = es\<rparr> 0 2 =
          Some \<lparr>mPoints = linePoints, mEdges = es @ [known02]\<rparr>"
      by (simp add: addEdge_def known02_def linePoints_def)
    then show ?case using Suc [of "es @ [known02]"] by (simp add: replicate_app_Cons_same)
  qed
  have s: "addEdges \<lparr>mPoints = linePoints, mEdges = es\<rparr> [(1, 1)] =
          Some \<lparr>mPoints = linePoints, mEdges = es @ [self11]\<rparr>" for es
    by (simp add: addEdge_def self11_def linePoints_def)
  show "mkBuilder [(0, 0), (10, 0), (20, 0)] (replicate k (0, 2) @ [(1, 1)]) = Some (lineBuilder k [self11])"
    unfolding mkBuilder_def b r [of "[]" "[(1, 1)]"] s by (simp add: lineBuilder_def)
  show "mkBuilder [(0, 0), (10, 0), (20, 0)] (replicate k (0, 2)) = Some (lineBuilder k [])"
    unfolding mkBuilder_def b using r [of "[]" "[]"] by (simp add: lineBuilder_def)
qed

lemma line_withCandidates:
  assumes "k + length es < 2 ^ 32"
  shows "withCandidates L (lineBuilder k es) =
         \<lparr>mPoints = linePoints, mEdges = allEdges L (lineBuilder k es)\<rparr>"
proof -
  have "length (mEdges (lineBuilder k es)) < 2 ^ 32" using assms by (simp add: lineBuilder_def)
  from withCandidates_edges [OF this, of L] show ?thesis
    by (simp add: allEdges_def lineBuilder_def)
qed

lemma line_build:
  assumes "k + length es < 2 ^ 32"
  shows "map_option fst (buildAirWires L (lineBuilder k es)) =
         map_option fst (kruskalMst L \<lparr>mPoints = linePoints, mEdges = allEdges L (lineBuilder k es)\<rparr>)"
  by (simp add: buildAirWires_def line_withCandidates [OF assms])

lemma line_sorted:
  "sortEdges gnuEnv (allEdges gnuEnv (lineBuilder 14 [])) = [cand01, cand12, known02, known02, known02, known02, known02, known02, known02, known02,
      known02, known02, known02, known02, known02, known02]"
  "sortEdges gnuEnv (allEdges gnuEnv (lineBuilder 14 [self11])) = [cand12, cand01, known02, self11, known02, known02, known02, known02, known02, known02,
      known02, known02, known02, known02, known02, known02, known02]"
  "sortEdges gnuEnv (allEdges gnuEnv (lineBuilder 15 [])) = [cand12, cand01, known02, known02, known02, known02, known02, known02, known02, known02,
      known02, known02, known02, known02, known02, known02, known02]"
proof -
  have a: "allEdges gnuEnv (lineBuilder 14 []) = [known02, known02, known02, known02, known02, known02, known02, known02, known02, known02,
      known02, known02, known02, known02, cand01, cand12]"
    "allEdges gnuEnv (lineBuilder 14 [self11]) = [known02, known02, known02, known02, known02, known02, known02, known02, known02, known02,
      known02, known02, known02, known02, self11, cand01, cand12]"
    "allEdges gnuEnv (lineBuilder 15 []) = [known02, known02, known02, known02, known02, known02, known02, known02, known02, known02,
      known02, known02, known02, known02, known02, cand01, cand12]"
    by (simp_all add: line_allEdges eval_nat_numeral)
  show "sortEdges gnuEnv (allEdges gnuEnv (lineBuilder 14 [])) = [cand01, cand12, known02, known02, known02, known02, known02, known02, known02, known02,
      known02, known02, known02, known02, known02, known02]"
    unfolding a by (simp add: gnuEnv_def gnu_std_sort_def sort16)
  show "sortEdges gnuEnv (allEdges gnuEnv (lineBuilder 14 [self11])) = [cand12, cand01, known02, self11, known02, known02, known02, known02, known02, known02,
      known02, known02, known02, known02, known02, known02, known02]"
    unfolding a by (simp add: gnuEnv_def gnu_std_sort_def sort17s)
  show "sortEdges gnuEnv (allEdges gnuEnv (lineBuilder 15 [])) = [cand12, cand01, known02, known02, known02, known02, known02, known02, known02, known02,
      known02, known02, known02, known02, known02, known02, known02]"
    unfolding a by (simp add: gnuEnv_def gnu_std_sort_def sort17)
qed

lemma line_airwires:
  "airWiresOf gnuEnv [(0, 0), (10, 0), (20, 0)] (replicate 14 (0, 2)) = Some [((10, 0), (20, 0))]"
  "airWiresOf gnuEnv [(0, 0), (10, 0), (20, 0)] (replicate 14 (0, 2) @ [(1, 1)]) = Some [((0, 0), (10, 0))]"
  "airWiresOf gnuEnv [(0, 0), (10, 0), (20, 0)] (replicate 15 (0, 2)) = Some [((0, 0), (10, 0))]"
proof -
  have b: "map_option fst (buildAirWires gnuEnv (lineBuilder k es)) =
           map_option fst (kruskalMst gnuEnv
             \<lparr>mPoints = linePoints, mEdges = allEdges gnuEnv (lineBuilder k es)\<rparr>)"
    if "k + length es < 20" for k es
    by (rule line_build) (use that in simp)
  show "airWiresOf gnuEnv [(0, 0), (10, 0), (20, 0)] (replicate 14 (0, 2)) = Some [((10, 0), (20, 0))]"
    unfolding airWiresOf_def line_mk option.case by (subst b, simp, rule line_kruskal16, rule line_sorted)
  show "airWiresOf gnuEnv [(0, 0), (10, 0), (20, 0)] (replicate 14 (0, 2) @ [(1, 1)]) = Some [((0, 0), (10, 0))]"
    unfolding airWiresOf_def line_mk option.case by (subst b, simp, rule line_kruskal17s, rule line_sorted)
  show "airWiresOf gnuEnv [(0, 0), (10, 0), (20, 0)] (replicate 15 (0, 2)) = Some [((0, 0), (10, 0))]"
    unfolding airWiresOf_def line_mk option.case by (subst b, simp, rule line_kruskal17, rule line_sorted)
qed

lemma line_candidates_stable:
  "map (setWeight stableEnv) (candidates stableEnv linePoints) = [cand01, cand12]"
proof -
  have "sortPoints stableEnv linePoints = linePoints" by (simp add: stableEnv_def linePoints_def)
  then have "candidates stableEnv linePoints = pathEdges linePoints"
    using linePoints_colinear by (simp add: candidates_def) (simp add: linePoints_def)
  moreover have "dist2 stableEnv = qrealDist2" by (simp add: stableEnv_def)
  ultimately show ?thesis
    by (simp add: pathEdges_def setWeight_def cand01_def cand12_def upt_conv_Cons
          qrealDist2_def toQreal_small linePoints_def)
qed

lemma line_sorted_stable:
  "sortEdges stableEnv (allEdges stableEnv (lineBuilder 15 [])) = [cand01, cand12, known02, known02, known02, known02, known02, known02, known02, known02,
      known02, known02, known02, known02, known02, known02, known02]"
proof -
  have "allEdges stableEnv (lineBuilder 15 []) = replicate 15 known02 @ [cand01, cand12]"
    by (simp add: allEdges_def lineBuilder_def line_candidates_stable)
  then show ?thesis by (simp add: stableEnv_def eval_nat_numeral edge_weights)
qed

lemma line_airwires_stable:
  "airWiresOf stableEnv [(0, 0), (10, 0), (20, 0)] (replicate 15 (0, 2)) = Some [((10, 0), (20, 0))]"
  unfolding airWiresOf_def line_mk option.case
  by (subst line_build, simp, rule line_kruskal17_stable, rule line_sorted_stable)

text \<open>
  C9, as the claim has it, fails with the \<^verbatim>\<open>std::sort\<close> of GCC. Three points in a line ten
  nanometres apart, the first and the third joined by fourteen known edges: sixteen edges
  in all, and the air wire is \<open>(10,0)-(20,0)\<close>. After \<^verbatim>\<open>addEdge(1, 1)\<close>, or after one more
  \<^verbatim>\<open>addEdge(0, 2)\<close>, there are seventeen edges, the sort partitions them, the two candidate
  edges of weight \<open>100\<close> change places, and the air wire is \<open>(0,0)-(10,0)\<close>.
\<close>

theorem redundant_edge_changes_airwires:
  "airWiresOf gnuEnv [(0, 0), (10, 0), (20, 0)] (replicate 14 (0, 2)) = Some [((10, 0), (20, 0))] \<and>
   airWiresOf gnuEnv [(0, 0), (10, 0), (20, 0)] (replicate 14 (0, 2) @ [(1, 1)]) = Some [((0, 0), (10, 0))] \<and>
   airWiresOf gnuEnv [(0, 0), (10, 0), (20, 0)] (replicate 14 (0, 2) @ [(0, 2)]) = Some [((0, 0), (10, 0))]"
proof -
  have "replicate 14 (0, 2) @ [(0, 2)] = replicate 15 (0::nat, 2::nat)"
    using replicate_add [of 14 1 "(0::nat, 2::nat)"] by simp
  with line_airwires show ?thesis by simp
qed

text \<open>
  C8, as the claim has it, fails with the \<^verbatim>\<open>std::sort\<close> of GCC. Three points in a line ten
  nanometres apart, the first and the third joined by fifteen known edges. The two
  candidate edges have the same weight and are generated in the order \<open>0-1\<close>, \<open>1-2\<close>; the sort
  leaves them in the order \<open>1-2\<close>, \<open>0-1\<close>, and the selector, which reads the list from the
  back, returns \<open>(0,0)-(10,0)\<close>. A sort that keeps them in order returns \<open>(10,0)-(20,0)\<close>.
\<close>

theorem std_sort_reorders_tied_edges:
  "mkBuilder [(0, 0), (10, 0), (20, 0)] (replicate 15 (0, 2)) = Some (lineBuilder 15 []) \<and>
   candidateEdges (allEdges gnuEnv (lineBuilder 15 [])) = [cand01, cand12] \<and>
   weight cand01 = weight cand12 \<and>
   candidateEdges (sortEdges gnuEnv (allEdges gnuEnv (lineBuilder 15 []))) = [cand12, cand01] \<and>
   airWiresOf gnuEnv [(0, 0), (10, 0), (20, 0)] (replicate 15 (0, 2)) = Some [((0, 0), (10, 0))] \<and>
   airWiresOf stableEnv [(0, 0), (10, 0), (20, 0)] (replicate 15 (0, 2)) = Some [((10, 0), (20, 0))]"
proof -
  have 1: "candidateEdges (allEdges gnuEnv (lineBuilder 15 [])) = [cand01, cand12]"
    by (simp add: candidateEdges_def line_allEdges edge_weights)
  have 2: "candidateEdges (sortEdges gnuEnv (allEdges gnuEnv (lineBuilder 15 []))) = [cand12, cand01]"
    by (simp add: candidateEdges_def line_sorted edge_weights)
  from 1 2 line_mk(2) [of 15] line_airwires(3) line_airwires_stable show ?thesis
    by (simp add: edge_weights)
qed

section \<open>Points on a line that are not found colinear\<close>

lemma spread_mk:
  "mkBuilder [(0, 0), (- 2000, 0), (2000, 0)] [] = Some \<lparr>mPoints = spreadPoints, mEdges = []\<rparr>"
  by (simp add: mkBuilder_def empty_builder_def addPoint_def toQreal_small spreadPoints_def)

lemma near_mk:
  "mkBuilder [(0, 0), (100, 0), (- 100, 0)] [] = Some \<lparr>mPoints = nearPoints, mEdges = []\<rparr>"
  by (simp add: mkBuilder_def empty_builder_def addPoint_def toQreal_small nearPoints_def)

lemma spread_not_colinear: "\<not> arePointsColinear spreadPoints"
proof -
  have "(1::real) / 1000000 < pi" using pi_ge_two by simp
  then show ?thesis
    by (simp add: spreadPoints_def sqdist_def direction_def atan2_def Let_def)
qed

lemma spread_no_triangle: "delaunayEdges spreadPoints = []"
  by (simp add: spreadPoints_def delaunayEdges_def delaunayTriangles_def cross_def upt_conv_Cons)

lemma spread_candidates: "candidates gnuEnv spreadPoints = []"
proof -
  have "triangulate gnuEnv = delaunayEdges" by (simp add: gnuEnv_def)
  moreover have "length spreadPoints = 3" by (simp add: spreadPoints_def)
  ultimately show ?thesis using spread_not_colinear spread_no_triangle by (simp add: candidates_def)
qed

lemma gnu_sort_nil: "sortEdges gnuEnv [] = []"
  by (simp add: gnuEnv_def gnu_std_sort_def gnu_sort_def)

lemma near_colinear: "arePointsColinear nearPoints"
  by (simp add: nearPoints_def sqdist_def)

lemma near_sorted: "sortPoints gnuEnv nearPoints = [nearPoints ! 2, nearPoints ! 0, nearPoints ! 1]"
proof -
  have "gnu_sort (\<lambda>a b. vx a < vx b) nearPoints = Some [nearPoints ! 2, nearPoints ! 0, nearPoints ! 1]"
  proof (rule gnu_sortI [where n = 3 and d = 2])
    show "lg 3 * 2 = 2" by (simp add: lg.simps)
    show "introsort_loop (\<lambda>a b. vx a < vx b) 2 nearPoints 0 3 = Some nearPoints"
      by (simp add: introsort_loop.simps)
    show "final_insertion_sort (\<lambda>a b. vx a < vx b) nearPoints 0 3 =
          [nearPoints ! 2, nearPoints ! 0, nearPoints ! 1]"
      by (simp add: insertion_defs nearPoints_def)
  qed (simp_all add: nearPoints_def)
  then show ?thesis by (simp add: gnuEnv_def gnu_std_sort_def)
qed

lemma spread_airwires: "airWiresOf gnuEnv [(0, 0), (- 2000, 0), (2000, 0)] [] = Some []"
proof -
  let ?b = "\<lparr>mPoints = spreadPoints, mEdges = []\<rparr>"
  have w: "withCandidates gnuEnv ?b = ?b"
    by (simp add: withCandidates_def Let_def spread_candidates)
  have "map_option fst (kruskalMst gnuEnv ?b) = Some []"
    by (simp add: kruskalMst_def kruskalInit_def spreadPoints_def gnu_sort_nil kruskalLoop.simps
          loopCond_def Let_def)
  then show ?thesis unfolding airWiresOf_def spread_mk option.case buildAirWires_def w .
qed

lemma near_airwires:
  "airWiresOf gnuEnv [(0, 0), (100, 0), (- 100, 0)] [] =
     Some [((0, 0), (100, 0)), ((- 100, 0), (0, 0))]"
proof -
  let ?p0 = "\<lparr>vx = 0, vy = 0, vid = 0, vtag = 0\<rparr>" and ?p1 = "\<lparr>vx = 100, vy = 0, vid = 1, vtag = 0\<rparr>"
  let ?p2 = "\<lparr>vx = - 100, vy = 0, vid = 2, vtag = 0\<rparr>"
  let ?e1 = "\<lparr>p1 = ?p2, p2 = ?p0, weight = 10000\<rparr>" and ?e2 = "\<lparr>p1 = ?p0, p2 = ?p1, weight = 10000\<rparr>"
  have d: "dist2 gnuEnv = qrealDist2" by (simp add: gnuEnv_def)
  have "candidates gnuEnv nearPoints = pathEdges [nearPoints ! 2, nearPoints ! 0, nearPoints ! 1]"
    using near_colinear by (simp add: candidates_def near_sorted) (simp add: nearPoints_def)
  then have c: "map (setWeight gnuEnv) (candidates gnuEnv nearPoints) = [?e1, ?e2]"
    by (simp add: pathEdges_def upt_conv_Cons setWeight_def d qrealDist2_def toQreal_small nearPoints_def)
  have w: "withCandidates gnuEnv \<lparr>mPoints = nearPoints, mEdges = []\<rparr> =
           \<lparr>mPoints = [?p0, ?p1, ?p2], mEdges = [?e1, ?e2]\<rparr>"
    by (simp add: withCandidates_def Let_def c) (simp add: nearPoints_def)
  have se: "sortEdges gnuEnv [?e1, ?e2] = [?e1, ?e2]"
  proof -
    have "gnu_sort (\<lambda>a b. weight a > weight b) [?e1, ?e2] = Some [?e1, ?e2]"
    proof (rule gnu_sortI [where n = 2 and d = 2])
      show "lg 2 * 2 = 2" by (simp add: lg.simps)
      show "introsort_loop (\<lambda>a b. weight a > weight b) 2 [?e1, ?e2] 0 2 = Some [?e1, ?e2]"
        by (simp add: introsort_loop.simps)
      show "final_insertion_sort (\<lambda>a b. weight a > weight b) [?e1, ?e2] 0 2 = [?e1, ?e2]"
        by (simp add: insertion_defs)
    qed simp_all
    then show ?thesis by (simp add: gnuEnv_def gnu_std_sort_def)
  qed
  have "map_option fst (kruskalMst gnuEnv \<lparr>mPoints = [?p0, ?p1, ?p2], mEdges = [?e1, ?e2]\<rparr>) =
        Some [((0, 0), (100, 0)), ((- 100, 0), (0, 0))]"
    using se by (simp add: kruskal_defs)
  then show ?thesis unfolding airWiresOf_def near_mk option.case buildAirWires_def w .
qed


text \<open>
  C2. Three points on a line with no known edge, the second two micrometres to the left and
  the third two micrometres to the right of the first. \<open>arePointsColinear\<close> does not find
  them colinear (the direction \<open>pi\<close> of the second is not folded onto the direction \<open>0\<close> of
  the third), so whatever the environment, \<^verbatim>\<open>buildAirWires\<close> takes its candidate edges for
  them from the Delaunay triangulation. Points on a line have no triangle, the
  triangulation has no edge, and \<^verbatim>\<open>buildAirWires\<close> returns no air wire, not two. The points
  of the unit test lie on both sides of the first one too, but within a micrometre of it,
  so their angles are not checked, and they get their two air wires.
\<close>

theorem colinear_points_without_airwires:
  "mkBuilder [(0, 0), (- 2000, 0), (2000, 0)] [] = Some \<lparr>mPoints = spreadPoints, mEdges = []\<rparr> \<and>
   cross (spreadPoints ! 0) (spreadPoints ! 1) (spreadPoints ! 2) = 0 \<and>
   \<not> arePointsColinear spreadPoints \<and>
   candidates L spreadPoints = triangulate L spreadPoints \<and>
   candidates gnuEnv spreadPoints = [] \<and>
   airWiresOf gnuEnv [(0, 0), (- 2000, 0), (2000, 0)] [] = Some [] \<and>
   airWiresOf gnuEnv [(0, 0), (100, 0), (- 100, 0)] [] =
     Some [((0, 0), (100, 0)), ((- 100, 0), (0, 0))]"
proof -
  have 1: "cross (spreadPoints ! 0) (spreadPoints ! 1) (spreadPoints ! 2) = 0"
    by (simp add: spreadPoints_def cross_def)
  have "length spreadPoints = 3" by (simp add: spreadPoints_def)
  then have 2: "candidates L spreadPoints = triangulate L spreadPoints"
    using spread_not_colinear by (simp add: candidates_def)
  from 1 2 spread_mk spread_not_colinear spread_candidates spread_airwires near_airwires
  show ?thesis by simp
qed

section \<open>Weights beyond 53 bits\<close>














text \<open>
  C3. Three points on a vertical line, registered bottom, top, middle: all have the same
  \<open>x\<close>, the sort by \<open>x\<close> leaves them as they are, and the path joins the bottom point to
  the top one instead of to its neighbour in the middle. And three points on a horizontal
  line with the second one to the left and the third one to the right of the first are
  not found colinear at all.
\<close>

theorem vertical_line_not_nearest_neighbours:
  "airWiresOf stableEnv [(0, 0), (0, 2000000), (0, 1000000)] [] =
     Some [((0, 2000000), (0, 1000000)), ((0, 0), (0, 2000000))] \<and>
   \<not> arePointsColinear (mPoints (addPoints empty_builder [(0, 0), (- 2000, 0), (2000, 0)]))"
proof -
  have "(1::real) / 1000000 < pi" using pi_ge_two by simp
  then have "\<not> arePointsColinear (mPoints (addPoints empty_builder [(0, 0), (- 2000, 0), (2000, 0)]))"
    by (simp add: empty_builder_def addPoint_def toQreal_small sqdist_def direction_def atan2_def Let_def)
  moreover have "airWiresOf stableEnv [(0, 0), (0, 2000000), (0, 1000000)] [] =
     Some [((0, 2000000), (0, 1000000)), ((0, 0), (0, 2000000))]"
    by (simp add: build_defs run_defs direction_def atan2_def)
  ultimately show ?thesis by simp
qed






section \<open>Builders made through the interface\<close>

text \<open>Every builder made with \<^verbatim>\<open>addPoint\<close> and \<^verbatim>\<open>addEdge\<close> alone is fresh.\<close>

lemma addPoints_ids:
  assumes "\<forall>i < length (mPoints b). vid (mPoints b ! i) = i"
  shows "(\<forall>i < length (mPoints (addPoints b ps)). vid (mPoints (addPoints b ps) ! i) = i) \<and>
         length (mPoints (addPoints b ps)) = length (mPoints b) + length ps \<and>
         mEdges (addPoints b ps) = mEdges b"
  using assms
proof (induction ps arbitrary: b)
  case Nil
  then show ?case by simp
next
  case (Cons p ps)
  let ?b = "snd (addPoint b p)"
  have "\<forall>i < length (mPoints ?b). vid (mPoints ?b ! i) = i"
    using Cons.prems by (auto simp: addPoint_def Let_def nth_append less_Suc_eq)
  from Cons.IH [OF this] show ?case by (simp add: addPoint_def Let_def)
qed

lemma addEdges_fresh:
  "fresh b \<Longrightarrow> addEdges b es = Some b' \<Longrightarrow> length (mEdges b) + length es < 2 ^ 32 \<Longrightarrow> fresh b'"
proof (induction es arbitrary: b)
  case Nil
  then show ?case by simp
next
  case (Cons e es)
  from Cons.prems(2) obtain b1 where b1: "addEdge b (fst e) (snd e) = Some b1" "addEdges b1 es = Some b'"
    by (auto split: option.splits)
  have l: "length (mEdges b) + 1 < 2 ^ 32" using Cons.prems(3) by simp
  have "fresh b1" by (rule addEdge_fresh(1) [OF Cons.prems(1) b1(1) l])
  moreover have "length (mEdges b1) = length (mEdges b) + 1"
    using b1(1) by (auto simp: addEdge_def split: if_splits)
  ultimately show ?case using Cons.IH [OF _ b1(2)] Cons.prems(3) by simp
qed

lemma mkBuilder_fresh:
  assumes "mkBuilder ps es = Some b" "length ps < 2 ^ 31" "length es < 2 ^ 32"
  shows "fresh b"
proof -
  let ?b0 = "addPoints empty_builder ps"
  have "\<forall>i < length (mPoints empty_builder). vid (mPoints empty_builder ! i) = i"
    by (simp add: empty_builder_def)
  from addPoints_ids [OF this, of ps] have "fresh ?b0"
    using assms(2) by (simp add: fresh_def prepared_def empty_builder_def)
  moreover have "length (mEdges ?b0) = 0"
    using addPoints_ids [of empty_builder ps] by (simp add: empty_builder_def)
  ultimately show ?thesis using assms(1,3) addEdges_fresh [of ?b0 es b] by (simp add: mkBuilder_def)
qed

text \<open>
  Three points in a V within a micrometre of each other are found colinear, since no point
  that near to the first one has its angle checked, and get the path by \<open>x\<close>; the unit test
  \<^verbatim>\<open>testThreeUnconnectedPointsVshape\<close> expects the wires \<open>(-5,0)-(0,-100)\<close> and
  \<open>(-5,0)-(10,0)\<close> for them.
\<close>

lemma vshape_points_get_the_path:
  "airWiresOf stableEnv [(- 5, 0), (10, 0), (0, - 100)] [] =
     Some [((- 5, 0), (0, - 100)), ((0, - 100), (10, 0))]"
  by (simp add: build_defs run_defs)

end
